theory Spec2Isabelle
  imports Complex_Main "HOL-Library.Multiset"
begin

section \<open>Multi-dataset batch samplers (sentence_transformers/sampler.py)\<close>

text \<open>
  The module defines two classes, \<open>RoundRobinBatchSampler\<close> and
  \<open>ProportionalBatchSampler\<close>.  Both keep the same fields, build one torch
  \<open>BatchSampler\<close> per dataset range when a pass starts, and differ in the order in which
  they pull batches from them.  Python integers are modelled as \<open>int\<close>, lists as lists,
  exceptions as values of \<open>error\<close>.
\<close>

subsection \<open>Data\<close>

datatype error = ValueError | IndexError | ZeroDivisionError | RuntimeError

text \<open>
  The trainer is an external object the sampler holds a reference to.  Only three of its
  attributes are touched: the flag \<open>training_with_dataset_dict\<close>, the list
  \<open>dataset_names\<close> and the attribute \<open>dataset_name\<close> the sampler assigns to
  (\<open>None\<close> while nothing has been assigned).
\<close>

record trainer =
  training_with_dataset_dict :: bool
  dataset_names :: "string list"
  dataset_name :: "string option"

record sampler =
  lengths :: "int list"
  ranges :: "(int \<times> int) list"
  seed :: int
  shuffle :: bool
  drop_last :: bool
  batch_size :: int
  trainer :: "trainer option"
  epoch :: int

text \<open>
  The random source is \<open>torch.Generator\<close>, which is not part of the module.  It is a
  parameter of the model: \<open>manual_seed\<close> gives the generator state for a seed and
  \<open>randperm g n\<close> is \<open>torch.randperm(n, generator=g)\<close>, returning the drawn
  sequence and the advanced state.
\<close>

record 'g rng =
  manual_seed :: "int \<Rightarrow> 'g"
  randperm :: "'g \<Rightarrow> nat \<Rightarrow> nat list \<times> 'g"

text \<open>
  \<open>g.manual_seed(seed)\<close>: torch accepts the seeds from \<open>-2^63\<close> to \<open>2^64 - 1\<close>
  and raises \<open>RuntimeError\<close> on any other integer.
\<close>

definition seed_in_range :: "int \<Rightarrow> bool" where
  "seed_in_range x = (- (2 ^ 63) \<le> x \<and> x \<le> 2 ^ 64 - 1)"

definition Generator_manual_seed :: "'g rng \<Rightarrow> int \<Rightarrow> error + 'g" where
  "Generator_manual_seed R x =
     (if seed_in_range x then Inr (manual_seed R x) else Inl RuntimeError)"

text \<open>What torch guarantees of \<open>randperm\<close>: a permutation of \<open>0, ..., n - 1\<close>.\<close>

definition rng_ok :: "'g rng \<Rightarrow> bool" where
  "rng_ok R = (\<forall>g n. mset (fst (randperm R g n)) = mset [0..<n])"

subsection \<open>Construction\<close>

text \<open>\<open>itertools.accumulate\<close>: the running sums of a list.\<close>

fun accumulate_from :: "int \<Rightarrow> int list \<Rightarrow> int list" where
  "accumulate_from t [] = []"
| "accumulate_from t (x # xs) = (t + x) # accumulate_from (t + x) xs"

definition accumulate :: "int list \<Rightarrow> int list" where
  "accumulate xs = accumulate_from 0 xs"

text \<open>
  \<open>__init__\<close> is the same in both classes.  It contains no \<open>raise\<close> and no operation
  that can fail on a list of integers, so the only branch of its result is \<open>Inr\<close>.
\<close>

definition sampler_init ::
  "int list \<Rightarrow> int \<Rightarrow> bool \<Rightarrow> int \<Rightarrow> bool \<Rightarrow> trainer option \<Rightarrow> error + sampler" where
  "sampler_init ls bsize dl sd sh tr =
     (let accumulated = accumulate ls in
      Inr \<lparr> lengths = ls,
            ranges = zip (0 # accumulated) accumulated,
            seed = sd, shuffle = sh, drop_last = dl, batch_size = bsize,
            trainer = tr, epoch = 0 \<rparr>)"

definition RoundRobinBatchSampler_init ::
  "int list \<Rightarrow> int \<Rightarrow> bool \<Rightarrow> int \<Rightarrow> bool \<Rightarrow> trainer option \<Rightarrow> error + sampler" where
  "RoundRobinBatchSampler_init = sampler_init"

definition ProportionalBatchSampler_init ::
  "int list \<Rightarrow> int \<Rightarrow> bool \<Rightarrow> int \<Rightarrow> bool \<Rightarrow> trainer option \<Rightarrow> error + sampler" where
  "ProportionalBatchSampler_init = sampler_init"

definition set_epoch :: "sampler \<Rightarrow> int \<Rightarrow> sampler" where
  "set_epoch s e = s\<lparr> epoch := e \<rparr>"

subsection \<open>The torch samplers a pass is built from\<close>

text \<open>\<open>range(start, end)\<close>, empty when \<open>end \<le> start\<close>.\<close>

definition py_range :: "int \<Rightarrow> int \<Rightarrow> int list" where
  "py_range a b = [a..b - 1]"

text \<open>
  The index sequence under a \<open>BatchSampler\<close>: \<open>range(start, end)\<close> itself, or
  \<open>SubsetRandomSampler(range(start, end), generator=g)\<close>, whose iterator draws
  \<open>randperm(len(indices))\<close> when it is first advanced and yields \<open>indices[i]\<close>, here
  \<open>start + i\<close>, for each drawn \<open>i\<close>.
\<close>

definition sampler_elements ::
  "'g rng \<Rightarrow> bool \<Rightarrow> int \<Rightarrow> int \<Rightarrow> 'g \<Rightarrow> int list \<times> 'g" where
  "sampler_elements R sh a b g =
     (if sh then (let (p, g') = randperm R g (length (py_range a b))
                  in (map (\<lambda>i. a + int i) p, g'))
      else (py_range a b, g))"

text \<open>
  One step of \<open>BatchSampler.__iter__\<close> over the indices not yet consumed: the next group
  of \<open>batch_size\<close> indices, a shorter last group unless \<open>drop_last\<close>, or exhaustion.
  torch refuses to construct a \<open>BatchSampler\<close> with \<open>batch_size \<le> 0\<close> (see
  \<open>BatchSampler_init\<close>); the first disjunct only keeps the function total there.
\<close>

definition next_batch :: "int \<Rightarrow> bool \<Rightarrow> int list \<Rightarrow> (int list \<times> int list) option" where
  "next_batch bsize dl xs =
     (if bsize \<le> 0 \<or> xs = [] \<or> (dl \<and> int (length xs) < bsize) then None
      else Some (take (nat bsize) xs, drop (nat bsize) xs))"

definition BatchSampler_init :: "int \<Rightarrow> error + unit" where
  "BatchSampler_init bsize = (if bsize \<le> 0 then Inl ValueError else Inr ())"

text \<open>\<open>BatchSampler.__len__\<close>, on the length of the range underneath.\<close>

definition BatchSampler_len :: "int \<Rightarrow> bool \<Rightarrow> int \<Rightarrow> int \<Rightarrow> int" where
  "BatchSampler_len bsize dl a b =
     (let L = int (length (py_range a b)) in
      if dl then L div bsize else (L + bsize - 1) div bsize)"

text \<open>
  An iterator over a \<open>BatchSampler\<close>.  Creating it runs nothing: the permutation is
  drawn from the shared generator at the first \<open>next\<close>, so a batcher is either
  \<open>Fresh\<close> (not advanced yet) or \<open>Running\<close> with the indices still to be grouped.
\<close>

datatype batcher = Fresh int int | Running "int list"

fun BatchSampler_next ::
  "'g rng \<Rightarrow> bool \<Rightarrow> int \<Rightarrow> bool \<Rightarrow> batcher \<Rightarrow> 'g \<Rightarrow> int list option \<times> batcher \<times> 'g" where
  "BatchSampler_next R sh bsize dl (Fresh a b) g =
     (let (xs, g') = sampler_elements R sh a b g in
      case next_batch bsize dl xs of
        None \<Rightarrow> (None, Running xs, g')
      | Some (bt, xs') \<Rightarrow> (Some bt, Running xs', g'))"
| "BatchSampler_next R sh bsize dl (Running xs) g =
     (case next_batch bsize dl xs of
        None \<Rightarrow> (None, Running xs, g)
      | Some (bt, xs') \<Rightarrow> (Some bt, Running xs', g))"

lemma BatchSampler_next_decreases:
  assumes "BatchSampler_next R sh bsize dl b g = (Some bt, b', g')"
  shows "(case b of Fresh _ _ \<Rightarrow> \<exists>xs. b' = Running xs
          | Running xs \<Rightarrow> \<exists>xs'. b' = Running xs' \<and> length xs' < length xs)"
  using assms
  by (cases b)
     (auto simp: next_batch_def split: prod.splits option.splits if_splits)

text \<open>
  \<open>list(it)\<close> for an iterator \<open>it\<close> over a \<open>BatchSampler\<close>: \<open>next\<close> until the
  iterator is exhausted.  It ends because a step either starts the iterator or shortens
  what it still holds.
\<close>

function BatchSampler_list ::
  "'g rng \<Rightarrow> bool \<Rightarrow> int \<Rightarrow> bool \<Rightarrow> batcher \<Rightarrow> 'g \<Rightarrow> int list list" where
  "BatchSampler_list R sh bsize dl b g =
     (case BatchSampler_next R sh bsize dl b g of
        (None, b', g') \<Rightarrow> []
      | (Some bt, b', g') \<Rightarrow> bt # BatchSampler_list R sh bsize dl b' g')"
  by pat_completeness auto
termination
proof (relation "inv_image (less_than <*lex*> less_than)
     (\<lambda>(R, sh, bsize, dl, b, g).
        (case b of Fresh _ _ \<Rightarrow> Suc 0 | Running xs \<Rightarrow> 0,
         case b of Fresh _ _ \<Rightarrow> 0 | Running xs \<Rightarrow> length xs))", goal_cases)
  case 1
  show ?case by auto
next
  case (2 R sh bsize dl b g x y bt b' g')
  then have "BatchSampler_next R sh bsize dl b g = (Some bt, b', g')" by simp
  from BatchSampler_next_decreases[OF this] show ?case
    by (cases b) auto
qed

declare BatchSampler_list.simps [simp del]

text \<open>
  The same batches computed from the index sequence alone,
  \<open>list(BatchSampler(xs, batch_size, drop_last))\<close>; used in the proofs.
\<close>

function batches :: "int \<Rightarrow> bool \<Rightarrow> int list \<Rightarrow> int list list" where
  "batches bsize dl xs =
     (case next_batch bsize dl xs of
        None \<Rightarrow> []
      | Some (bt, xs') \<Rightarrow> bt # batches bsize dl xs')"
  by pat_completeness auto
termination
  by (relation "measure (\<lambda>(bsize, dl, xs). length xs)")
     (auto simp: next_batch_def split: if_splits)

declare batches.simps [simp del]

text \<open>
  Every batch an iterator will still yield: for one not advanced yet, the batches over the
  index sequence it would draw from generator state \<open>g\<close>.
\<close>

definition remaining_batches ::
  "'g rng \<Rightarrow> bool \<Rightarrow> int \<Rightarrow> bool \<Rightarrow> batcher \<Rightarrow> 'g \<Rightarrow> int list list" where
  "remaining_batches R sh bsize dl b g =
     (case b of
        Fresh a b \<Rightarrow> batches bsize dl (fst (sampler_elements R sh a b g))
      | Running xs \<Rightarrow> batches bsize dl xs)"

text \<open>The batch count written in both \<open>__len__\<close> methods, for a dataset of size \<open>L\<close>.\<close>

definition batch_count :: "int \<Rightarrow> bool \<Rightarrow> int \<Rightarrow> int" where
  "batch_count bsize dl L = (if dl then L div bsize else (L + bsize - 1) div bsize)"

text \<open>
  The list comprehension that builds the batch samplers of a pass.  Each
  \<open>BatchSampler(...)\<close> call checks the batch size, so the first one raises when it is
  not positive; with no range nothing is constructed and nothing raises.
\<close>

fun new_batch_samplers :: "int \<Rightarrow> (int \<times> int) list \<Rightarrow> error + batcher list" where
  "new_batch_samplers bsize [] = Inr []"
| "new_batch_samplers bsize ((a, b) # rs) =
     (case BatchSampler_init bsize of
        Inl e \<Rightarrow> Inl e
      | Inr _ \<Rightarrow>
          (case new_batch_samplers bsize rs of
             Inl e \<Rightarrow> Inl e
           | Inr bss \<Rightarrow> Inr (Fresh a b # bss)))"

subsection \<open>What a pass hands to its consumer\<close>

text \<open>
  A pass is a generator.  Each \<open>yield\<close> hands a batch to the consumer and suspends the
  generator; the statements after the \<open>yield\<close> run only when the consumer asks for the
  next batch.  The model records, with every batch, the value of the local variable
  \<open>dataset_idx\<close> and the content of the trainer's \<open>dataset_name\<close> at the moment of
  the \<open>yield\<close>, which is what a consumer reading the attribute on receipt of the batch
  sees.  A pass ends by running out (\<open>Finished\<close>) or by an exception.
\<close>

type_synonym yielded = "nat \<times> int list \<times> string option"

datatype outcome = Finished | Raised error

type_synonym pass = "yielded list \<times> outcome"

definition emit :: "yielded \<Rightarrow> pass \<Rightarrow> pass" where
  "emit y p = (y # fst p, snd p)"

definition slot :: "trainer option \<Rightarrow> string option" where
  "slot tr = (case tr of None \<Rightarrow> None | Some t \<Rightarrow> dataset_name t)"

text \<open>
  The two lines after the \<open>yield\<close>:
  \<^verbatim>\<open>if self.trainer and self.trainer.training_with_dataset_dict:
    self.trainer.dataset_name = self.trainer.dataset_names[dataset_idx]\<close>
  Indexing the name list beyond its end raises \<open>IndexError\<close>.
\<close>

definition notify :: "trainer option \<Rightarrow> nat \<Rightarrow> error + trainer option" where
  "notify tr dataset_idx =
     (case tr of
        None \<Rightarrow> Inr None
      | Some t \<Rightarrow>
          if training_with_dataset_dict t then
            (if dataset_idx < length (dataset_names t)
             then Inr (Some (t\<lparr> dataset_name := Some (dataset_names t ! dataset_idx) \<rparr>))
             else Inl IndexError)
          else Inr (Some t))"

subsection \<open>RoundRobinBatchSampler\<close>

text \<open>Measures for the termination of the round-robin loop.\<close>

definition unstarted :: "batcher list \<Rightarrow> nat" where
  "unstarted bss = sum_list (map (\<lambda>b. case b of Fresh a b \<Rightarrow> 1 | Running xs \<Rightarrow> 0) bss)"

definition pending :: "batcher list \<Rightarrow> nat" where
  "pending bss =
     sum_list (map (\<lambda>b. case b of Fresh a b \<Rightarrow> 0 | Running xs \<Rightarrow> length xs) bss)"

lemma sum_list_map_update:
  fixes f :: "'a \<Rightarrow> nat"
  assumes "i < length xs"
  shows "sum_list (map f (xs[i := y])) + f (xs ! i) = sum_list (map f xs) + f y"
  using assms
proof (induction xs arbitrary: i)
  case Nil
  then show ?case by simp
next
  case (Cons x xs)
  then show ?case by (cases i) auto
qed

text \<open>
  The loop \<open>for dataset_idx in cycle(range(len(batch_samplers)))\<close>.  \<open>cycle\<close> over an
  empty range stops at once; otherwise \<open>dataset_idx\<close> stays below the number of batch
  samplers and is followed by \<open>(dataset_idx + 1) mod n\<close>.  \<open>StopIteration\<close> from the
  pulled batch sampler is caught and breaks the loop; any other exception leaves it.
\<close>

function rr_loop ::
  "'g rng \<Rightarrow> bool \<Rightarrow> int \<Rightarrow> bool \<Rightarrow> nat \<Rightarrow> batcher list \<Rightarrow> 'g \<Rightarrow> trainer option \<Rightarrow> pass" where
  "rr_loop R sh bsize dl dataset_idx bss g tr =
     (if length bss \<le> dataset_idx then ([], Finished)
      else case BatchSampler_next R sh bsize dl (bss ! dataset_idx) g of
        (None, b', g') \<Rightarrow> ([], Finished)
      | (Some bt, b', g') \<Rightarrow>
          emit (dataset_idx, bt, slot tr)
            (case notify tr dataset_idx of
               Inl e \<Rightarrow> ([], Raised e)
             | Inr tr' \<Rightarrow>
                 rr_loop R sh bsize dl (Suc dataset_idx mod length bss)
                   (bss[dataset_idx := b']) g' tr'))"
  by pat_completeness auto
termination
proof (relation "inv_image (less_than <*lex*> less_than)
     (\<lambda>(R, sh, bsize, dl, i, bss, g, tr). (unstarted bss, pending bss))", goal_cases)
  case 1
  show ?case by auto
next
  case (2 R sh bsize dl i bss g tr x y bt b' g' tr')
  then have i: "i < length bss"
    and nx: "BatchSampler_next R sh bsize dl (bss ! i) g = (Some bt, b', g')"
    by auto
  have u: "unstarted (bss[i := b']) + (case bss ! i of Fresh a b \<Rightarrow> 1 | Running xs \<Rightarrow> 0)
             = unstarted bss + (case b' of Fresh a b \<Rightarrow> 1 | Running xs \<Rightarrow> 0)"
    unfolding unstarted_def using i by (rule sum_list_map_update)
  have p: "pending (bss[i := b']) + (case bss ! i of Fresh a b \<Rightarrow> 0 | Running xs \<Rightarrow> length xs)
             = pending bss + (case b' of Fresh a b \<Rightarrow> 0 | Running xs \<Rightarrow> length xs)"
    unfolding pending_def using i by (rule sum_list_map_update)
  show ?case
  proof (cases "bss ! i")
    case (Fresh a b)
    with BatchSampler_next_decreases[OF nx] obtain xs where "b' = Running xs" by auto
    with u Fresh show ?thesis by simp
  next
    case (Running xs)
    with BatchSampler_next_decreases[OF nx]
    obtain xs' where "b' = Running xs'" "length xs' < length xs"
      by auto
    with u p Running show ?thesis by simp
  qed
qed

declare rr_loop.simps [simp del]

text \<open>
  \<open>RoundRobinBatchSampler.__iter__\<close>: seed a new generator with \<open>seed + epoch\<close>,
  which raises when torch does not accept the sum, create the batch samplers in the order
  of the ranges, run the loop.  All of it runs when the first batch is requested.
\<close>

definition RoundRobinBatchSampler_iter :: "'g rng \<Rightarrow> sampler \<Rightarrow> pass" where
  "RoundRobinBatchSampler_iter R s =
     (case Generator_manual_seed R (seed s + epoch s) of
        Inl e \<Rightarrow> ([], Raised e)
      | Inr g \<Rightarrow>
          (case new_batch_samplers (batch_size s) (ranges s) of
             Inl e \<Rightarrow> ([], Raised e)
           | Inr batch_samplers \<Rightarrow>
               rr_loop R (shuffle s) (batch_size s) (drop_last s) 0 batch_samplers g
                 (trainer s)))"

text \<open>
  The per-dataset counts of \<open>__len__\<close>, \<open>length // batch_size\<close> or
  \<open>(length + batch_size - 1) // batch_size\<close>: Python's floor division, which raises on a
  zero divisor as soon as there is a length to divide.
\<close>

definition batch_counts :: "sampler \<Rightarrow> error + int list" where
  "batch_counts s =
     (if batch_size s = 0 \<and> lengths s \<noteq> [] then Inl ZeroDivisionError
      else Inr (map (\<lambda>l. if drop_last s then l div batch_size s
                          else (l + batch_size s - 1) div batch_size s) (lengths s)))"

text \<open>The builtin \<open>min\<close> on a list: \<open>ValueError\<close> on the empty list.\<close>

definition py_min :: "int list \<Rightarrow> error + int" where
  "py_min xs = (case xs of [] \<Rightarrow> Inl ValueError | x # r \<Rightarrow> Inr (fold min r x))"

definition RoundRobinBatchSampler_len :: "sampler \<Rightarrow> error + int" where
  "RoundRobinBatchSampler_len s =
     (case batch_counts s of
        Inl e \<Rightarrow> Inl e
      | Inr cs \<Rightarrow>
          (case py_min cs of
             Inl e \<Rightarrow> Inl e
           | Inr m \<Rightarrow> Inr (m * int (length (lengths s)))))"

subsection \<open>ProportionalBatchSampler\<close>

text \<open>
  The loop \<open>for dataset_idx in sampler\<close> over the permuted draw list.  Here
  \<open>next(batch_samplers[dataset_idx])\<close> is not guarded: a \<open>StopIteration\<close> escaping
  into the generator body surfaces as \<open>RuntimeError\<close>.
\<close>

fun prop_loop ::
  "'g rng \<Rightarrow> bool \<Rightarrow> int \<Rightarrow> bool \<Rightarrow> nat list \<Rightarrow> batcher list \<Rightarrow> 'g \<Rightarrow> trainer option \<Rightarrow> pass" where
  "prop_loop R sh bsize dl [] bss g tr = ([], Finished)"
| "prop_loop R sh bsize dl (dataset_idx # draws) bss g tr =
     (case BatchSampler_next R sh bsize dl (bss ! dataset_idx) g of
        (None, b', g') \<Rightarrow> ([], Raised RuntimeError)
      | (Some bt, b', g') \<Rightarrow>
          emit (dataset_idx, bt, slot tr)
            (case notify tr dataset_idx of
               Inl e \<Rightarrow> ([], Raised e)
             | Inr tr' \<Rightarrow> prop_loop R sh bsize dl draws (bss[dataset_idx := b']) g' tr'))"

text \<open>
  \<open>indices = [idx for idx, length in enumerate(lengths) for _ in range(length)]\<close>,
  where \<open>lengths\<close> are the \<open>len\<close> of the batch samplers.
\<close>

definition draw_list :: "int list \<Rightarrow> nat list" where
  "draw_list lens = concat (map (\<lambda>(idx, l). replicate (nat l) idx) (enumerate 0 lens))"

text \<open>
  \<open>ProportionalBatchSampler.__iter__\<close>, with the same seeding.  The
  \<open>SubsetRandomSampler\<close> over the draw list draws its permutation when the \<open>for\<close>
  loop starts, that is before any batch sampler has been advanced.
\<close>

definition ProportionalBatchSampler_iter :: "'g rng \<Rightarrow> sampler \<Rightarrow> pass" where
  "ProportionalBatchSampler_iter R s =
     (case Generator_manual_seed R (seed s + epoch s) of
        Inl e \<Rightarrow> ([], Raised e)
      | Inr g \<Rightarrow>
          (case new_batch_samplers (batch_size s) (ranges s) of
             Inl e \<Rightarrow> ([], Raised e)
           | Inr batch_samplers \<Rightarrow>
               (let lens = map (\<lambda>(a, b). BatchSampler_len (batch_size s) (drop_last s) a b)
                             (ranges s);
                    indices = draw_list lens;
                    (p, g') = randperm R g (length indices)
                in prop_loop R (shuffle s) (batch_size s) (drop_last s)
                     (map (\<lambda>i. indices ! i) p) batch_samplers g' (trainer s))))"

definition ProportionalBatchSampler_len :: "sampler \<Rightarrow> error + int" where
  "ProportionalBatchSampler_len s =
     (case batch_counts s of
        Inl e \<Rightarrow> Inl e
      | Inr cs \<Rightarrow> Inr (sum_list cs))"

subsection \<open>Notions used in the statements\<close>

text \<open>
  \<open>len(batch_samplers[i])\<close>: the number of batches of dataset \<open>i\<close>, as the batch
  sampler over its range reports it.
\<close>

definition batch_sampler_len :: "sampler \<Rightarrow> nat \<Rightarrow> int" where
  "batch_sampler_len s i =
     (case ranges s ! i of (a, b) \<Rightarrow> BatchSampler_len (batch_size s) (drop_last s) a b)"

text \<open>The batch samplers of a pass before any of them has been advanced.\<close>

definition fresh_batch_samplers :: "(int \<times> int) list \<Rightarrow> batcher list" where
  "fresh_batch_samplers rs = map (\<lambda>(a, b). Fresh a b) rs"

text \<open>The number of batches an iterator has left, from the indices it still holds.\<close>

definition batches_left :: "int \<Rightarrow> bool \<Rightarrow> batcher \<Rightarrow> nat" where
  "batches_left bsize dl b =
     nat (batch_count bsize dl
       (int (case b of Fresh a b \<Rightarrow> length (py_range a b) | Running xs \<Rightarrow> length xs)))"

text \<open>
  The invariant of the round-robin loop entered at \<open>dataset_idx = i\<close>: the \<open>k\<close>-th
  batch it yields is tagged \<open>(i + k) mod n\<close> and is within what that batch sampler had
  left; when the loop ends by exhaustion, the batch sampler whose turn it was had exactly
  as many batches as it had turns; the only exception leaving the loop is
  \<open>IndexError\<close>.
\<close>

definition rr_inv :: "int \<Rightarrow> bool \<Rightarrow> nat \<Rightarrow> batcher list \<Rightarrow> pass \<Rightarrow> bool" where
  "rr_inv bsize dl i bss p =
     ((\<forall>k<length (fst p). fst (fst p ! k) = (i + k) mod length bss
          \<and> k div length bss < batches_left bsize dl (bss ! ((i + k) mod length bss)))
      \<and> (snd p = Finished \<longrightarrow>
            batches_left bsize dl (bss ! ((i + length (fst p)) mod length bss))
              = length (fst p) div length bss)
      \<and> (snd p = Finished \<or> snd p = Raised IndexError))"

text \<open>
  The trainer can be notified for each of \<open>n\<close> datasets: there is none, or its flag is
  off, or it has a name for every dataset index below \<open>n\<close>.
\<close>

definition notifier_ok :: "nat \<Rightarrow> trainer option \<Rightarrow> bool" where
  "notifier_ok n tr =
     (case tr of
        None \<Rightarrow> True
      | Some t \<Rightarrow> \<not> training_with_dataset_dict t \<or> n \<le> length (dataset_names t))"

text \<open>The batches of a pass with their dataset indices, and how the pass ended.\<close>

definition batches_of :: "pass \<Rightarrow> (nat \<times> int list) list \<times> outcome" where
  "batches_of p = (map (\<lambda>(dataset_idx, bt, sl). (dataset_idx, bt)) (fst p), snd p)"

text \<open>Two trainers that agree on flag and names, whatever \<open>dataset_name\<close> holds.\<close>

definition same_notifier :: "trainer option \<Rightarrow> trainer option \<Rightarrow> bool" where
  "same_notifier tr1 tr2 =
     (map_option (\<lambda>t. (training_with_dataset_dict t, dataset_names t)) tr1
        = map_option (\<lambda>t. (training_with_dataset_dict t, dataset_names t)) tr2)"

text \<open>The batches a pass yields from dataset \<open>i\<close>, in the order it yields them.\<close>

definition tagged :: "nat \<Rightarrow> pass \<Rightarrow> int list list" where
  "tagged i p = map (fst \<circ> snd) (filter (\<lambda>y. fst y = i) (fst p))"

subsection \<open>A concrete generator\<close>

text \<open>
  To run the model on concrete inputs the generator parameter needs a value.  This one
  keeps an integer state, starts it at the seed, answers \<open>randperm n\<close> with
  \<open>0, ..., n - 1\<close> rotated by the state and then increments the state.  It stands for
  no property of torch's generator beyond \<open>rng_ok\<close>.
\<close>

definition rotating_rng :: "int rng" where
  "rotating_rng =
     \<lparr> manual_seed = (\<lambda>s. s), randperm = (\<lambda>g n. (rotate (nat g) [0..<n], g + 1)) \<rparr>"

section \<open>Properties\<close>

subsection \<open>Running the model\<close>

lemma mset_rotate: "mset (rotate k xs) = mset xs"
proof -
  have "mset (drop m xs @ take m xs) = mset (take m xs @ drop m xs)" for m
    by (simp only: mset_append add.commute)
  then show ?thesis by (simp add: rotate_drop_take del: mset_append)
qed

lemma rng_ok_rotating_rng: "rng_ok rotating_rng"
  unfolding rng_ok_def rotating_rng_def by (simp add: mset_rotate del: mset_upt)

lemma upto_unfold: "[i..j] = (if i \<le> j then i # [i + 1..j] else [])"
  by (simp add: upto.simps)

lemmas run_defs =
  rr_loop.simps
  RoundRobinBatchSampler_init_def ProportionalBatchSampler_init_def sampler_init_def
  accumulate_def set_epoch_def
  RoundRobinBatchSampler_iter_def ProportionalBatchSampler_iter_def
  RoundRobinBatchSampler_len_def ProportionalBatchSampler_len_def
  batch_counts_def py_min_def BatchSampler_init_def BatchSampler_len_def draw_list_def
  sampler_elements_def py_range_def next_batch_def emit_def slot_def notify_def
  rotating_rng_def enumerate_eq_zip seed_in_range_def Generator_manual_seed_def

text \<open>The two cases of the seeding, for both passes.\<close>

lemma RoundRobinBatchSampler_iter_seeded:
  "seed_in_range (seed s + epoch s) \<Longrightarrow>
   RoundRobinBatchSampler_iter R s =
     (case new_batch_samplers (batch_size s) (ranges s) of
        Inl e \<Rightarrow> ([], Raised e)
      | Inr batch_samplers \<Rightarrow>
          rr_loop R (shuffle s) (batch_size s) (drop_last s) 0 batch_samplers
            (manual_seed R (seed s + epoch s)) (trainer s))"
  by (simp add: RoundRobinBatchSampler_iter_def Generator_manual_seed_def)

lemma ProportionalBatchSampler_iter_seeded:
  "seed_in_range (seed s + epoch s) \<Longrightarrow>
   ProportionalBatchSampler_iter R s =
     (case new_batch_samplers (batch_size s) (ranges s) of
        Inl e \<Rightarrow> ([], Raised e)
      | Inr batch_samplers \<Rightarrow>
          (let lens = map (\<lambda>(a, b). BatchSampler_len (batch_size s) (drop_last s) a b)
                        (ranges s);
               indices = draw_list lens;
               (p, g') = randperm R (manual_seed R (seed s + epoch s)) (length indices)
           in prop_loop R (shuffle s) (batch_size s) (drop_last s)
                (map (\<lambda>i. indices ! i) p) batch_samplers g' (trainer s)))"
  by (simp add: ProportionalBatchSampler_iter_def Generator_manual_seed_def)

lemma iter_seed_rejected:
  assumes "\<not> seed_in_range (seed s + epoch s)"
  shows "RoundRobinBatchSampler_iter R s = ([], Raised RuntimeError)"
    and "ProportionalBatchSampler_iter R s = ([], Raised RuntimeError)"
  using assms
  by (simp_all add: RoundRobinBatchSampler_iter_def ProportionalBatchSampler_iter_def
      Generator_manual_seed_def)

subsection \<open>No dataset at all\<close>

lemma new_batch_samplers_pos:
  "0 < bsize \<Longrightarrow> new_batch_samplers bsize rs = Inr (map (\<lambda>(a, b). Fresh a b) rs)"
  by (induction rs) (auto simp: BatchSampler_init_def)

text \<open>
  Claim C10.  A \<open>RoundRobinBatchSampler\<close> constructed with an empty \<open>lengths\<close>, at any
  epoch: the pass yields no batch and, when \<open>seed + epoch\<close> is a seed torch accepts,
  ends at once without an error (\<open>cycle\<close> of an empty range), while \<open>__len__\<close>
  raises, \<open>min\<close> being applied to an empty list.
\<close>

theorem C10_empty_lengths:
  "(case RoundRobinBatchSampler_init [] bsize dl sd sh tr of
      Inl err \<Rightarrow> False
    | Inr s \<Rightarrow>
        fst (RoundRobinBatchSampler_iter R (set_epoch s e)) = [] \<and>
        (seed_in_range (sd + e) \<longrightarrow>
           RoundRobinBatchSampler_iter R (set_epoch s e) = ([], Finished)) \<and>
        RoundRobinBatchSampler_len (set_epoch s e) = Inl ValueError)"
  by (simp add: RoundRobinBatchSampler_init_def sampler_init_def accumulate_def
      set_epoch_def RoundRobinBatchSampler_iter_def Generator_manual_seed_def
      RoundRobinBatchSampler_len_def batch_counts_def py_min_def rr_loop.simps)

theorem C10_empty_lengths_witness:
  "RoundRobinBatchSampler_iter rotating_rng
       \<lparr> lengths = [], ranges = [], seed = 0, shuffle = True, drop_last = False,
         batch_size = 2, trainer = None, epoch = 3 \<rparr> = ([], Finished)
   \<and> RoundRobinBatchSampler_len
       \<lparr> lengths = [], ranges = [], seed = 0, shuffle = True, drop_last = False,
         batch_size = 2, trainer = None, epoch = 3 \<rparr> = Inl ValueError"
  using C10_empty_lengths[where bsize = 2 and dl = False and sd = 0 and sh = True
      and tr = None and R = rotating_rng and e = 3]
  by (simp add: RoundRobinBatchSampler_init_def sampler_init_def accumulate_def
      set_epoch_def seed_in_range_def)

subsection \<open>The ranges computed at construction\<close>

lemma length_accumulate_from [simp]: "length (accumulate_from t xs) = length xs"
  by (induction xs arbitrary: t) auto

lemma accumulate_from_nth:
  "i < length xs \<Longrightarrow> accumulate_from t xs ! i = t + sum_list (take (Suc i) xs)"
proof (induction xs arbitrary: t i)
  case Nil
  then show ?case by simp
next
  case (Cons x xs)
  then show ?case by (cases i) (auto simp: add.assoc)
qed

lemma ranges_from_nth:
  assumes "i < length xs"
  shows "zip (t # accumulate_from t xs) (accumulate_from t xs) ! i
           = (t + sum_list (take i xs), t + sum_list (take (Suc i) xs))"
proof (cases i)
  case 0
  with assms show ?thesis by (cases xs) auto
next
  case (Suc j)
  with assms have "j < length xs" by simp
  with assms Suc show ?thesis
    by (simp add: accumulate_from_nth)
qed

lemma sum_list_take_mono:
  assumes "\<forall>l\<in>set xs. (0::int) \<le> l" and "i \<le> j"
  shows "sum_list (take i xs) \<le> sum_list (take j xs)"
proof -
  have "take j xs = take i xs @ take (j - i) (drop i xs)"
    using assms(2) by (metis le_add_diff_inverse take_add)
  moreover have "0 \<le> sum_list (take (j - i) (drop i xs))"
    using assms(1) by (intro sum_list_nonneg) (auto dest!: in_set_takeD in_set_dropD)
  ultimately show ?thesis by simp
qed

lemma ranges_from_union:
  assumes "\<forall>l\<in>set xs. (0::int) \<le> l"
  shows "(\<Union>(a, b)\<in>set (zip (t # accumulate_from t xs) (accumulate_from t xs)). {a..<b})
           = {t..<t + sum_list xs}"
  using assms
proof (induction xs arbitrary: t)
  case Nil
  then show ?case by simp
next
  case (Cons x xs)
  then have x: "0 \<le> x" and s: "0 \<le> sum_list xs"
    by (auto intro: sum_list_nonneg)
  from Cons have "(\<Union>(a, b)\<in>set (zip ((t + x) # accumulate_from (t + x) xs)
        (accumulate_from (t + x) xs)). {a..<b}) = {t + x..<t + x + sum_list xs}"
    by simp
  then show ?case using x s by (auto simp: add.assoc)
qed

lemma sampler_init_ranges:
  assumes "RoundRobinBatchSampler_init ls bsize dl sd sh tr = Inr s
         \<or> ProportionalBatchSampler_init ls bsize dl sd sh tr = Inr s"
  shows "ranges s = zip (0 # accumulate_from 0 ls) (accumulate_from 0 ls)"
    and "lengths s = ls" and "batch_size s = bsize" and "drop_last s = dl"
    and "seed s = sd" and "shuffle s = sh" and "trainer s = tr" and "epoch s = 0"
  using assms
  by (auto simp: RoundRobinBatchSampler_init_def ProportionalBatchSampler_init_def
      sampler_init_def accumulate_def Let_def)

text \<open>
  Claim C5.  For non-negative lengths, the ranges either constructor stores are: one per
  dataset; range \<open>i\<close> runs from the sum of the lengths before \<open>i\<close> to the sum of the
  lengths up to and including \<open>i\<close>; each range starts where the previous one ends; the
  ranges are ordered by dataset index and pairwise disjoint as half-open intervals; and
  together they cover exactly \<open>[0, sum(lengths))\<close>.
\<close>

theorem C5_ranges_partition:
  assumes init: "RoundRobinBatchSampler_init ls bsize dl sd sh tr = Inr s
               \<or> ProportionalBatchSampler_init ls bsize dl sd sh tr = Inr s"
    and nonneg: "\<forall>l\<in>set ls. 0 \<le> l"
  shows "length (ranges s) = length ls
    \<and> (\<forall>i<length ls. ranges s ! i = (sum_list (take i ls), sum_list (take (Suc i) ls)))
    \<and> (\<forall>i. Suc i < length ls \<longrightarrow> fst (ranges s ! Suc i) = snd (ranges s ! i))
    \<and> (\<forall>i<length ls. fst (ranges s ! i) \<le> snd (ranges s ! i))
    \<and> (\<forall>i j. i < j \<and> j < length ls \<longrightarrow> snd (ranges s ! i) \<le> fst (ranges s ! j))
    \<and> (\<forall>i j. i < j \<and> j < length ls \<longrightarrow>
           {fst (ranges s ! i)..<snd (ranges s ! i)}
             \<inter> {fst (ranges s ! j)..<snd (ranges s ! j)} = {})
    \<and> (\<Union>(a, b)\<in>set (ranges s). {a..<b}) = {0..<sum_list ls}"
proof -
  have r: "ranges s = zip (0 # accumulate_from 0 ls) (accumulate_from 0 ls)"
    using init by (rule sampler_init_ranges)
  have len: "length (ranges s) = length ls" by (simp add: r)
  have nth: "\<forall>i<length ls. ranges s ! i = (sum_list (take i ls), sum_list (take (Suc i) ls))"
    using ranges_from_nth[of _ ls 0] by (simp add: r)
  have contiguous: "\<forall>i. Suc i < length ls \<longrightarrow> fst (ranges s ! Suc i) = snd (ranges s ! i)"
    using nth by simp
  have proper: "\<forall>i<length ls. fst (ranges s ! i) \<le> snd (ranges s ! i)"
    using nth sum_list_take_mono[OF nonneg] by simp
  have ord: "\<forall>i j. i < j \<and> j < length ls \<longrightarrow> snd (ranges s ! i) \<le> fst (ranges s ! j)"
    using nth sum_list_take_mono[OF nonneg] by simp
  have disjoint: "\<forall>i j. i < j \<and> j < length ls \<longrightarrow>
      {fst (ranges s ! i)..<snd (ranges s ! i)}
        \<inter> {fst (ranges s ! j)..<snd (ranges s ! j)} = {}"
    using ord by fastforce
  have union: "(\<Union>(a, b)\<in>set (ranges s). {a..<b}) = {0..<sum_list ls}"
    using ranges_from_union[OF nonneg, of 0] by (simp add: r)
  from len nth contiguous proper ord disjoint union show ?thesis by blast
qed

theorem C5_ranges_partition_witness:
  "RoundRobinBatchSampler_init [4, 6] 2 False 0 False None
     = Inr \<lparr> lengths = [4, 6], ranges = [(0, 4), (4, 10)], seed = 0, shuffle = False,
             drop_last = False, batch_size = 2, trainer = None, epoch = 0 \<rparr>
   \<and> (\<Union>(a, b)\<in>set [(0, 4), (4, 10)]. {a..<b}) = {0..<(10::int)}
   \<and> {0..<4} \<inter> {4..<10} = ({} :: int set)"
proof -
  let ?s = "\<lparr> lengths = [4, 6], ranges = [(0, 4), (4, 10)], seed = 0, shuffle = False,
             drop_last = False, batch_size = 2, trainer = None, epoch = 0 \<rparr>"
  have i: "RoundRobinBatchSampler_init [4, 6] 2 False 0 False None = Inr ?s"
    by (simp add: RoundRobinBatchSampler_init_def sampler_init_def accumulate_def)
  have n: "\<forall>l\<in>set [4, 6 :: int]. 0 \<le> l" by simp
  from C5_ranges_partition[OF disjI1[OF i] n] show ?thesis
    using i by simp
qed

subsection \<open>Declared length against the batches of a round-robin pass\<close>

text \<open>
  Claim C1.  The claim is that a round-robin pass yields as many batches as \<open>__len__\<close>
  returns, the smallest per-dataset batch count times the number of datasets.  The loop
  stops only when it reaches an exhausted batch sampler, so the datasets before the first
  one with the smallest count are served once more in the last, incomplete cycle.  With
  lengths \<open>[6, 4]\<close> and batch size 2 (no shuffling, whatever the generator) the pass
  yields five batches, the last from dataset 0, while \<open>__len__\<close> returns 4.
\<close>

theorem C1_length_disagrees:
  "(case RoundRobinBatchSampler_init [6, 4] 2 False 0 False None of
      Inl e \<Rightarrow> False
    | Inr s \<Rightarrow>
        RoundRobinBatchSampler_iter R s =
          ([(0, [0, 1], None), (1, [6, 7], None), (0, [2, 3], None), (1, [8, 9], None),
            (0, [4, 5], None)], Finished) \<and>
        RoundRobinBatchSampler_len s = Inr 4)"
  by (simp add: run_defs upto_unfold)

subsection \<open>The name the consumer reads on receipt of a batch\<close>

text \<open>
  Claim C7.  The claim is that the name of a batch's dataset is in the trainer's
  \<open>dataset_name\<close> when the consumer receives the batch.  The assignment stands after
  the \<open>yield\<close>, so it runs when the next batch is requested: with two datasets named
  \<open>a\<close> and \<open>b\<close>, the round-robin consumer receives the batch of dataset 0 with the
  attribute still unset and the batch of dataset 1 with \<open>a\<close> in it; the proportional
  consumer (draw order 1, 0 under the rotating generator seeded with 1) receives the batch
  of dataset 1 with the attribute unset and the batch of dataset 0 with \<open>b\<close> in it.
\<close>

theorem C7_stale_name:
  "(case RoundRobinBatchSampler_init [2, 2] 2 False 0 False
           (Some \<lparr> training_with_dataset_dict = True, dataset_names = [''a'', ''b''],
                   dataset_name = None \<rparr>) of
      Inl e \<Rightarrow> False
    | Inr s \<Rightarrow>
        RoundRobinBatchSampler_iter R s =
          ([(0, [0, 1], None), (1, [2, 3], Some ''a'')], Finished))
   \<and> (case ProportionalBatchSampler_init [2, 2] 2 False 1 False
           (Some \<lparr> training_with_dataset_dict = True, dataset_names = [''a'', ''b''],
                   dataset_name = None \<rparr>) of
      Inl e \<Rightarrow> False
    | Inr s \<Rightarrow>
        ProportionalBatchSampler_iter rotating_rng s =
          ([(1, [2, 3], None), (0, [0, 1], Some ''b'')], Finished))"
  by (simp add: run_defs upto_unfold)

subsection \<open>Where a bad configuration is detected\<close>

lemma new_batch_samplers_nonpos:
  "bsize \<le> 0 \<Longrightarrow> rs \<noteq> [] \<Longrightarrow> new_batch_samplers bsize rs = Inl ValueError"
  by (cases rs) (auto simp: BatchSampler_init_def)

text \<open>
  Claim C6, as stated, fails: construction succeeds with batch size 0, with a negative
  length, and with a trainer that has one name for two datasets; in the last case the
  pass yields two batches and then raises \<open>IndexError\<close>, in mid-iteration.
\<close>

theorem C6_counterexample:
  "RoundRobinBatchSampler_init [1] 0 False 0 False None
     = Inr \<lparr> lengths = [1], ranges = [(0, 1)], seed = 0, shuffle = False,
             drop_last = False, batch_size = 0, trainer = None, epoch = 0 \<rparr>
   \<and> ProportionalBatchSampler_init [- 1] 2 False 0 False None
     = Inr \<lparr> lengths = [- 1], ranges = [(0, - 1)], seed = 0, shuffle = False,
             drop_last = False, batch_size = 2, trainer = None, epoch = 0 \<rparr>
   \<and> RoundRobinBatchSampler_init [2, 2] 2 False 0 False
        (Some \<lparr> training_with_dataset_dict = True, dataset_names = [''a''],
                dataset_name = None \<rparr>)
     = Inr \<lparr> lengths = [2, 2], ranges = [(0, 2), (2, 4)], seed = 0, shuffle = False,
             drop_last = False, batch_size = 2,
             trainer = Some \<lparr> training_with_dataset_dict = True, dataset_names = [''a''],
                              dataset_name = None \<rparr>,
             epoch = 0 \<rparr>
   \<and> RoundRobinBatchSampler_iter rotating_rng
        \<lparr> lengths = [2, 2], ranges = [(0, 2), (2, 4)], seed = 0, shuffle = False,
          drop_last = False, batch_size = 2,
          trainer = Some \<lparr> training_with_dataset_dict = True, dataset_names = [''a''],
                           dataset_name = None \<rparr>,
          epoch = 0 \<rparr>
     = ([(0, [0, 1], None), (1, [2, 3], Some ''a'')], Raised IndexError)"
  by (simp add: run_defs upto_unfold)

text \<open>
  Claim C6, amended.  Neither constructor validates anything: for all arguments it
  returns a sampler.  When the batch size is not positive, there is at least one dataset
  and \<open>seed + epoch\<close> is a seed torch accepts, the pass raises \<open>ValueError\<close> (from the
  first \<open>BatchSampler\<close> constructed) when it is started, at any epoch, before any batch
  is yielded; when the batch size is zero and there is at least one dataset,
  \<open>__len__\<close> raises \<open>ZeroDivisionError\<close>.
\<close>

theorem C6_no_validation_at_construction:
  "(case RoundRobinBatchSampler_init ls bsize dl sd sh tr of
      Inl err \<Rightarrow> False
    | Inr s \<Rightarrow>
        (bsize \<le> 0 \<and> ls \<noteq> [] \<and> seed_in_range (sd + e) \<longrightarrow>
           RoundRobinBatchSampler_iter R (set_epoch s e) = ([], Raised ValueError))
        \<and> (bsize = 0 \<and> ls \<noteq> [] \<longrightarrow>
           RoundRobinBatchSampler_len (set_epoch s e) = Inl ZeroDivisionError))
   \<and> (case ProportionalBatchSampler_init ls bsize dl sd sh tr of
      Inl err \<Rightarrow> False
    | Inr s \<Rightarrow>
        (bsize \<le> 0 \<and> ls \<noteq> [] \<and> seed_in_range (sd + e) \<longrightarrow>
           ProportionalBatchSampler_iter R (set_epoch s e) = ([], Raised ValueError))
        \<and> (bsize = 0 \<and> ls \<noteq> [] \<longrightarrow>
           ProportionalBatchSampler_len (set_epoch s e) = Inl ZeroDivisionError))"
proof -
  have "ls \<noteq> [] \<Longrightarrow> zip (0 # accumulate_from 0 ls) (accumulate_from 0 ls) \<noteq> []"
    by (cases ls) auto
  then show ?thesis
    by (auto simp: RoundRobinBatchSampler_init_def ProportionalBatchSampler_init_def
        sampler_init_def accumulate_def set_epoch_def Let_def
        RoundRobinBatchSampler_iter_seeded ProportionalBatchSampler_iter_seeded
        RoundRobinBatchSampler_len_def ProportionalBatchSampler_len_def batch_counts_def
        new_batch_samplers_nonpos)
qed

theorem C6_no_validation_at_construction_witness:
  "RoundRobinBatchSampler_iter rotating_rng
        \<lparr> lengths = [1], ranges = [(0, 1)], seed = 0, shuffle = False,
          drop_last = False, batch_size = 0, trainer = None, epoch = 4 \<rparr>
     = ([], Raised ValueError)
   \<and> ProportionalBatchSampler_iter rotating_rng
        \<lparr> lengths = [1], ranges = [(0, 1)], seed = 0, shuffle = False,
          drop_last = False, batch_size = 0, trainer = None, epoch = 4 \<rparr>
     = ([], Raised ValueError)
   \<and> RoundRobinBatchSampler_len
        \<lparr> lengths = [1], ranges = [(0, 1)], seed = 0, shuffle = False,
          drop_last = False, batch_size = 0, trainer = None, epoch = 4 \<rparr>
     = Inl ZeroDivisionError
   \<and> ProportionalBatchSampler_len
        \<lparr> lengths = [1], ranges = [(0, 1)], seed = 0, shuffle = False,
          drop_last = False, batch_size = 0, trainer = None, epoch = 4 \<rparr>
     = Inl ZeroDivisionError"
  using C6_no_validation_at_construction[where ls = "[1]" and bsize = 0 and dl = False
      and sd = 0 and sh = False and tr = None and R = rotating_rng and e = 4]
  by (simp add: RoundRobinBatchSampler_init_def ProportionalBatchSampler_init_def
        sampler_init_def accumulate_def set_epoch_def seed_in_range_def)

subsection \<open>Passes that do not shuffle\<close>

lemma BatchSampler_next_noshuffle:
  assumes "\<not> sh" and "BatchSampler_next R sh bsize dl b g = (x, b', g1)"
  shows "BatchSampler_next R' sh bsize dl b g' = (x, b', g')"
  using assms
  by (cases b) (auto simp: sampler_elements_def split: option.splits prod.splits)

lemma rr_loop_noshuffle:
  assumes "\<not> sh"
  shows "rr_loop R sh bsize dl i bss g tr = rr_loop R' sh bsize dl i bss g' tr"
  using assms
proof (induction R sh bsize dl i bss g tr arbitrary: g' rule: rr_loop.induct)
  case (1 R sh bsize dl i bss g tr)
  show ?case
  proof (cases "length bss \<le> i")
    case True
    then show ?thesis by (simp add: rr_loop.simps[of _ _ _ _ i bss])
  next
    case False
    obtain x b' g1 where nx: "BatchSampler_next R sh bsize dl (bss ! i) g = (x, b', g1)"
      by (metis prod_cases3)
    have nx': "BatchSampler_next R' sh bsize dl (bss ! i) g' = (x, b', g')"
      using "1.prems" nx by (rule BatchSampler_next_noshuffle)
    show ?thesis
    proof (cases x)
      case None
      with False nx nx' show ?thesis
        by (simp add: rr_loop.simps[of _ _ _ _ i bss])
    next
      case (Some bt)
      show ?thesis
      proof (cases "notify tr i")
        case (Inl e)
        with False nx nx' Some show ?thesis
          by (simp add: rr_loop.simps[of _ _ _ _ i bss])
      next
        case (Inr tr')
        have "rr_loop R sh bsize dl (Suc i mod length bss) (bss[i := b']) g1 tr'
            = rr_loop R' sh bsize dl (Suc i mod length bss) (bss[i := b']) g' tr'"
          using "1.IH"[OF False nx[symmetric] Some refl Inr "1.prems"] .
        with False nx nx' Some Inr show ?thesis
          by (simp add: rr_loop.simps[of _ _ _ _ i bss])
      qed
    qed
  qed
qed

text \<open>
  Claim C9.  Without shuffling, a round-robin pass is the same for every seed and epoch
  whose sum torch accepts as a seed, and for every generator: the generator is seeded but
  never drawn from.  A proportional pass without shuffling still permutes its draw list
  with the generator: under the rotating generator, which satisfies what torch promises
  of \<open>randperm\<close>, two proportional samplers that differ only in the seed yield different
  sequences.
\<close>

theorem C9_seed_independence:
  "(\<not> shuffle s \<and> seed_in_range (seed s + epoch s) \<and> seed_in_range (sd + ep) \<longrightarrow>
      RoundRobinBatchSampler_iter R' (s\<lparr> seed := sd, epoch := ep \<rparr>)
        = RoundRobinBatchSampler_iter R s)
   \<and> rng_ok rotating_rng
   \<and> ProportionalBatchSampler_iter rotating_rng
        \<lparr> lengths = [2, 2], ranges = [(0, 2), (2, 4)], seed = 1, shuffle = False,
          drop_last = False, batch_size = 2, trainer = None, epoch = 0 \<rparr>
     \<noteq> ProportionalBatchSampler_iter rotating_rng
        \<lparr> lengths = [2, 2], ranges = [(0, 2), (2, 4)], seed = 0, shuffle = False,
          drop_last = False, batch_size = 2, trainer = None, epoch = 0 \<rparr>"
proof (intro conjI impI)
  assume a: "\<not> shuffle s \<and> seed_in_range (seed s + epoch s) \<and> seed_in_range (sd + ep)"
  then have "seed_in_range (seed (s\<lparr> seed := sd, epoch := ep \<rparr>)
      + epoch (s\<lparr> seed := sd, epoch := ep \<rparr>))" by simp
  with a show "RoundRobinBatchSampler_iter R' (s\<lparr> seed := sd, epoch := ep \<rparr>)
        = RoundRobinBatchSampler_iter R s"
    by (auto simp: RoundRobinBatchSampler_iter_seeded split: sum.splits
        intro: rr_loop_noshuffle)
next
  show "rng_ok rotating_rng" by (rule rng_ok_rotating_rng)
next
  show "ProportionalBatchSampler_iter rotating_rng
        \<lparr> lengths = [2, 2], ranges = [(0, 2), (2, 4)], seed = 1, shuffle = False,
          drop_last = False, batch_size = 2, trainer = None, epoch = 0 \<rparr>
     \<noteq> ProportionalBatchSampler_iter rotating_rng
        \<lparr> lengths = [2, 2], ranges = [(0, 2), (2, 4)], seed = 0, shuffle = False,
          drop_last = False, batch_size = 2, trainer = None, epoch = 0 \<rparr>"
    by (simp add: run_defs upto_unfold)
qed

theorem C9_seed_independence_witness:
  "RoundRobinBatchSampler_iter rotating_rng
        \<lparr> lengths = [4, 6], ranges = [(0, 4), (4, 10)], seed = 7, shuffle = False,
          drop_last = False, batch_size = 2, trainer = None, epoch = 3 \<rparr>
     = RoundRobinBatchSampler_iter rotating_rng
        \<lparr> lengths = [4, 6], ranges = [(0, 4), (4, 10)], seed = 0, shuffle = False,
          drop_last = False, batch_size = 2, trainer = None, epoch = 0 \<rparr>"
  using C9_seed_independence[where s =
        "\<lparr> lengths = [4, 6], ranges = [(0, 4), (4, 10)], seed = 0, shuffle = False,
          drop_last = False, batch_size = 2, trainer = None, epoch = 0 \<rparr>"
        and R = rotating_rng and R' = rotating_rng and sd = 7 and ep = 3]
  by (simp add: seed_in_range_def)

subsection \<open>The batches of one dataset\<close>

lemma batches_None: "next_batch bsize dl xs = None \<Longrightarrow> batches bsize dl xs = []"
  by (simp add: batches.simps)

lemma batches_Some:
  "next_batch bsize dl xs = Some (bt, xs') \<Longrightarrow> batches bsize dl xs = bt # batches bsize dl xs'"
  by (simp add: batches.simps)

lemma next_batch_SomeD:
  assumes "next_batch bsize dl xs = Some (bt, xs')"
  shows "0 < bsize" "xs \<noteq> []" "bt = take (nat bsize) xs" "xs' = drop (nat bsize) xs"
    "dl \<Longrightarrow> bsize \<le> int (length xs)"
  using assms by (auto simp: next_batch_def split: if_splits)

lemma batch_count_exhausted:
  assumes "0 < bsize" "next_batch bsize dl xs = None"
  shows "batch_count bsize dl (int (length xs)) = 0"
  using assms
  by (auto simp: next_batch_def batch_count_def split: if_splits)

lemma int_div_step: "0 < (b::int) \<Longrightarrow> x div b = 1 + (x - b) div b"
  using div_add_self2[of b "x - b"] by simp

lemma batch_count_step:
  assumes "next_batch bsize dl xs = Some (bt, xs')"
  shows "batch_count bsize dl (int (length xs)) = 1 + batch_count bsize dl (int (length xs'))"
proof -
  note d = next_batch_SomeD[OF assms]
  let ?L = "int (length xs)"
  have ceil: "(?L + bsize - 1) div bsize = 1 + (?L - 1) div bsize"
    using int_div_step[OF d(1), of "?L + bsize - 1"] by simp
  show ?thesis
  proof (cases "bsize \<le> ?L")
    case True
    then have len: "int (length xs') = ?L - bsize" using d by simp
    have "?L div bsize = 1 + (?L - bsize) div bsize"
      using d(1) by (rule int_div_step)
    moreover have "(?L - bsize + bsize - 1) = ?L - 1" by simp
    ultimately show ?thesis using ceil by (simp add: batch_count_def len)
  next
    case False
    then have nd: "\<not> dl" using d(5) by auto
    from False have e: "xs' = []" using d by simp
    have "0 < ?L" using d(2) by simp
    with False have "(?L - 1) div bsize = 0" by (simp add: div_pos_pos_trivial)
    with ceil e nd d(1) show ?thesis by (simp add: batch_count_def)
  qed
qed

lemma length_batches:
  assumes "0 < bsize"
  shows "int (length (batches bsize dl xs)) = batch_count bsize dl (int (length xs))"
  using assms
proof (induction bsize dl xs rule: batches.induct)
  case (1 bsize dl xs)
  show ?case
  proof (cases "next_batch bsize dl xs")
    case None
    with "1.prems" show ?thesis by (simp add: batches_None batch_count_exhausted)
  next
    case (Some p)
    obtain bt xs' where p: "p = (bt, xs')" by (cases p)
    from "1.IH"[OF Some p[symmetric] "1.prems"] Some p
    show ?thesis by (simp add: batches_Some batch_count_step)
  qed
qed



lemma length_py_range: "int (length (py_range a b)) = max 0 (b - a)"
  by (simp add: py_range_def)


lemma ceil_div:
  assumes b: "0 < (b::int)"
  shows "(x + b - 1) div b = \<lceil>real_of_int x / real_of_int b\<rceil>"
proof -
  have x: "x = b * (x div b) + x mod b" by simp
  have m: "0 \<le> x mod b" "x mod b < b" using b by simp_all
  have s: "(x + b - 1) div b = 1 + (x - 1) div b"
    using int_div_step[OF b, of "x + b - 1"] by simp
  have "1 + (x - 1) div b = - (- x div b)"
  proof (cases "x mod b = 0")
    case True
    have "x - 1 = b * (x div b - 1) + (b - 1)"
      using x True by (simp add: algebra_simps)
    then have "(x - 1) div b = x div b - 1"
      by (rule int_div_pos_eq) (use b in simp_all)
    with True b show ?thesis by (simp add: zdiv_zminus1_eq_if)
  next
    case False
    have "x - 1 = b * (x div b) + (x mod b - 1)"
      using x by simp
    then have "(x - 1) div b = x div b"
      by (rule int_div_pos_eq) (use m False in simp_all)
    with False b show ?thesis by (simp add: zdiv_zminus1_eq_if)
  qed
  with s show ?thesis by (simp add: ceiling_divide_eq_div)
qed


lemma BatchSampler_next_remaining:
  assumes "BatchSampler_next R sh bsize dl b g = (Some bt, b', g')"
  shows "remaining_batches R sh bsize dl b g = bt # remaining_batches R sh bsize dl b' g''"
  using assms
  by (cases b)
     (auto simp: remaining_batches_def batches_Some split: prod.splits option.splits)

lemma BatchSampler_next_exhausted:
  assumes "BatchSampler_next R sh bsize dl b g = (None, b', g')"
  shows "remaining_batches R sh bsize dl b g = []"
  using assms
  by (cases b)
     (auto simp: remaining_batches_def batches_None split: prod.splits option.splits)

lemma BatchSampler_list_remaining:
  "BatchSampler_list R sh bsize dl b g = remaining_batches R sh bsize dl b g"
proof (induction R sh bsize dl b g rule: BatchSampler_list.induct)
  case (1 R sh bsize dl b g)
  obtain x b' g' where nx: "BatchSampler_next R sh bsize dl b g = (x, b', g')"
    by (metis prod_cases3)
  show ?case
  proof (cases x)
    case None
    with nx BatchSampler_next_exhausted[OF nx[unfolded None]] show ?thesis
      by (simp add: BatchSampler_list.simps[of _ _ _ _ b])
  next
    case (Some bt)
    from "1.IH"[OF nx[symmetric] Some refl]
    have "BatchSampler_list R sh bsize dl b' g' = remaining_batches R sh bsize dl b' g'" .
    with nx Some BatchSampler_next_remaining[OF nx[unfolded Some], of g'] show ?thesis
      by (simp add: BatchSampler_list.simps[of _ _ _ _ b])
  qed
qed





subsection \<open>The order of a round-robin pass\<close>

lemma rng_ok_length: "rng_ok R \<Longrightarrow> length (fst (randperm R g n)) = n"
  unfolding rng_ok_def by (metis mset_eq_length length_upt diff_zero)

lemma length_sampler_elements:
  "rng_ok R \<Longrightarrow> length (fst (sampler_elements R sh a b g)) = length (py_range a b)"
  using rng_ok_length[of R g "length (py_range a b)"]
  by (auto simp: sampler_elements_def split: prod.splits)

lemma batch_count_nonneg: "0 < bsize \<Longrightarrow> 0 \<le> batch_count bsize dl (int n)"
  using length_batches[of bsize dl "replicate n 0"] by simp

lemma batches_left_None:
  assumes "0 < bsize" "next_batch bsize dl xs = None"
  shows "nat (batch_count bsize dl (int (length xs))) = 0"
  using batch_count_exhausted[OF assms] by simp

lemma batches_left_Some:
  assumes "0 < bsize" "next_batch bsize dl xs = Some (bt, xs')"
  shows "nat (batch_count bsize dl (int (length xs)))
           = Suc (nat (batch_count bsize dl (int (length xs'))))"
  using batch_count_step[OF assms(2)] batch_count_nonneg[OF assms(1), of dl "length xs'"]
  by simp

lemma BatchSampler_next_left:
  assumes "0 < bsize" "rng_ok R" "BatchSampler_next R sh bsize dl b g = (x, b', g')"
  shows "case x of
           None \<Rightarrow> batches_left bsize dl b = 0
         | Some bt \<Rightarrow> batches_left bsize dl b = Suc (batches_left bsize dl b')"
proof (cases b)
  case (Fresh a c)
  obtain xs g1 where e: "sampler_elements R sh a c g = (xs, g1)" by (cases "sampler_elements R sh a c g")
  then have l: "length xs = length (py_range a c)"
    using length_sampler_elements[OF assms(2), of sh a c g] by simp
  show ?thesis
  proof (cases "next_batch bsize dl xs")
    case None
    with assms(3) Fresh e have "x = None" by simp
    with batches_left_None[OF assms(1) None] l Fresh show ?thesis
      by (simp add: batches_left_def)
  next
    case (Some p)
    obtain bt xs' where p: "p = (bt, xs')" by (cases p)
    with assms(3) Fresh e Some have "x = Some bt" "b' = Running xs'" by simp_all
    with batches_left_Some[OF assms(1) Some[unfolded p]] l Fresh show ?thesis
      by (simp add: batches_left_def)
  qed
next
  case (Running xs)
  show ?thesis
  proof (cases "next_batch bsize dl xs")
    case None
    with assms(3) Running have "x = None" by simp
    with batches_left_None[OF assms(1) None] Running show ?thesis
      by (simp add: batches_left_def)
  next
    case (Some p)
    obtain bt xs' where p: "p = (bt, xs')" by (cases p)
    with assms(3) Running Some have "x = Some bt" "b' = Running xs'" by simp_all
    with batches_left_Some[OF assms(1) Some[unfolded p]] Running show ?thesis
      by (simp add: batches_left_def)
  qed
qed

lemma mod_add_eq_self_iff:
  assumes "i < (n::nat)"
  shows "(i + t) mod n = i \<longleftrightarrow> t mod n = 0"
proof
  assume h: "(i + t) mod n = i"
  define r where "r = t mod n"
  have r: "r < n" using assms by (simp add: r_def)
  have "(i + r) mod n = i" using h by (simp add: r_def mod_add_right_eq)
  moreover have "(i + r) mod n = (if i + r < n then i + r else i + r - n)"
    using assms r by (simp add: mod_if)
  ultimately have "r = 0" using assms r by (auto split: if_splits)
  then show "t mod n = 0" by (simp add: r_def)
next
  assume "t mod n = 0"
  then have "(i + t) mod n = i mod n" by (metis mod_add_right_eq add.right_neutral)
  with assms show "(i + t) mod n = i" by simp
qed

lemma cycle_div_step:
  assumes "i < (n::nat)"
  shows "Suc k div n = (if (i + Suc k) mod n = i then Suc (k div n) else k div n)"
  using mod_add_eq_self_iff[OF assms, of "Suc k"] by (simp add: div_Suc)

lemma cycle_next: "(Suc i mod n + k) mod n = (i + Suc k) mod n"
  by (simp add: mod_add_left_eq)

lemma notify_error: "notify tr i = Inl e \<Longrightarrow> e = IndexError"
  by (auto simp: notify_def split: option.splits if_splits)

lemma rr_inv_emit:
  assumes i: "i < length bss"
    and left: "batches_left bsize dl (bss ! i) = Suc (batches_left bsize dl b')"
    and IH: "rr_inv bsize dl (Suc i mod length bss) (bss[i := b']) p"
  shows "rr_inv bsize dl i bss (emit (i, bt, sl) p)"
proof -
  let ?n = "length bss"
  let ?ys = "fst p"
  have nth: "batches_left bsize dl (bss[i := b'] ! q)
      = (if q = i then batches_left bsize dl (bss ! i) - 1 else batches_left bsize dl (bss ! q))"
    if "q < ?n" for q
    using that i left by (simp add: nth_list_update)
  have n0: "0 < ?n" using i by linarith
  have q: "(i + k) mod ?n < ?n" for k using n0 by simp
  have a: "fst (fst (emit (i, bt, sl) p) ! k) = (i + k) mod ?n
        \<and> k div ?n < batches_left bsize dl (bss ! ((i + k) mod ?n))"
    if k: "k < length (fst (emit (i, bt, sl) p))" for k
  proof (cases k)
    case 0
    with i left show ?thesis by (simp add: emit_def)
  next
    case (Suc j)
    with k have j: "j < length ?ys" by (simp add: emit_def)
    from IH j have 1: "fst (?ys ! j) = (i + Suc j) mod ?n"
      and 2: "j div ?n < batches_left bsize dl (bss[i := b'] ! ((i + Suc j) mod ?n))"
      by (simp_all add: rr_inv_def cycle_next)
    from 2 have "Suc j div ?n < batches_left bsize dl (bss ! ((i + Suc j) mod ?n))"
      unfolding nth[OF q] cycle_div_step[OF i, of j] by (auto split: if_splits)
    with 1 Suc show ?thesis by (simp add: emit_def)
  qed
  have b: "batches_left bsize dl (bss ! ((i + length (fst (emit (i, bt, sl) p))) mod ?n))
              = length (fst (emit (i, bt, sl) p)) div ?n"
    if "snd (emit (i, bt, sl) p) = Finished"
  proof -
    from that have "snd p = Finished" by (simp add: emit_def)
    with IH have "batches_left bsize dl (bss[i := b'] ! ((i + Suc (length ?ys)) mod ?n))
        = length ?ys div ?n"
      by (simp add: rr_inv_def cycle_next)
    then have "batches_left bsize dl (bss ! ((i + Suc (length ?ys)) mod ?n))
        = Suc (length ?ys) div ?n"
      unfolding nth[OF q] cycle_div_step[OF i, of "length ?ys"] using left
      by (auto split: if_splits)
    then show ?thesis by (simp add: emit_def)
  qed
  have c: "snd (emit (i, bt, sl) p) = Finished \<or> snd (emit (i, bt, sl) p) = Raised IndexError"
    using IH by (simp add: rr_inv_def emit_def)
  from a b c show ?thesis unfolding rr_inv_def by blast
qed

lemma rr_loop_inv:
  assumes "0 < bsize" "rng_ok R" "i < length bss"
  shows "rr_inv bsize dl i bss (rr_loop R sh bsize dl i bss g tr)"
  using assms
proof (induction R sh bsize dl i bss g tr rule: rr_loop.induct)
  case (1 R sh bsize dl i bss g tr)
  note i = \<open>i < length bss\<close>
  obtain x b' g1 where nx: "BatchSampler_next R sh bsize dl (bss ! i) g = (x, b', g1)"
    by (metis prod_cases3)
  note left = BatchSampler_next_left[OF "1.prems"(1,2) nx]
  show ?case
  proof (cases x)
    case None
    with i nx have "rr_loop R sh bsize dl i bss g tr = ([], Finished)"
      by (simp add: rr_loop.simps[of _ _ _ _ i bss])
    with left None i show ?thesis by (simp add: rr_inv_def)
  next
    case (Some bt)
    with left have l: "batches_left bsize dl (bss ! i) = Suc (batches_left bsize dl b')"
      by simp
    show ?thesis
    proof (cases "notify tr i")
      case (Inl e)
      with i nx Some have r: "rr_loop R sh bsize dl i bss g tr
          = emit (i, bt, slot tr) ([], Raised e)"
        by (simp add: rr_loop.simps[of _ _ _ _ i bss])
      from Inl have "e = IndexError" by (rule notify_error)
      with l i show ?thesis unfolding r by (simp add: rr_inv_def emit_def)
    next
      case (Inr tr')
      with i nx Some have r: "rr_loop R sh bsize dl i bss g tr
          = emit (i, bt, slot tr)
              (rr_loop R sh bsize dl (Suc i mod length bss) (bss[i := b']) g1 tr')"
        by (simp add: rr_loop.simps[of _ _ _ _ i bss])
      have "\<not> length bss \<le> i" using i by simp
      moreover have "0 < length bss" using i by linarith
      ultimately have "rr_inv bsize dl (Suc i mod length bss) (bss[i := b'])
              (rr_loop R sh bsize dl (Suc i mod length bss) (bss[i := b']) g1 tr')"
        using "1.IH"[OF _ nx[symmetric] Some refl Inr "1.prems"(1,2)] by simp
      from rr_inv_emit[OF i l this] show ?thesis unfolding r .
    qed
  qed
qed

lemma batches_left_fresh:
  assumes "0 < batch_size s" "i < length (ranges s)"
  shows "int (batches_left (batch_size s) (drop_last s) (fresh_batch_samplers (ranges s) ! i))
           = batch_sampler_len s i"
  using assms batch_count_nonneg[OF assms(1)]
  by (simp add: fresh_batch_samplers_def batch_sampler_len_def batches_left_def
      BatchSampler_len_def batch_count_def split: prod.splits)

text \<open>
  Claim C3.  In a round-robin pass with a positive batch size, the \<open>k\<close>-th yielded
  batch comes from dataset \<open>k mod n\<close>, so the datasets are served in the cyclic order
  \<open>0, 1, ..., n - 1, 0, 1, ...\<close>, and it is one of that dataset's batches (its
  \<open>k div n\<close>-th).  When the pass ends by itself after \<open>t\<close> batches, the dataset whose
  turn was next, \<open>t mod n\<close>, had exactly \<open>t div n\<close> batches: the pass stopped at the
  first batch sampler found exhausted and yielded nothing after it, whatever the other
  datasets still held.  When \<open>seed + epoch\<close> is a seed torch accepts, the only other
  way the pass ends is the \<open>IndexError\<close> of the name lookup; when it is not, the pass
  raises the \<open>RuntimeError\<close> of \<open>manual_seed\<close> before any batch.
\<close>

theorem C3_round_robin_order:
  fixes R :: "'g rng" and s :: sampler
  assumes pos: "0 < batch_size s" and rng: "rng_ok R"
  defines "n \<equiv> length (ranges s)"
  defines "ys \<equiv> fst (RoundRobinBatchSampler_iter R s)"
  defines "out \<equiv> snd (RoundRobinBatchSampler_iter R s)"
  shows "(\<forall>k<length ys. fst (ys ! k) = k mod n
            \<and> int (k div n) < batch_sampler_len s (k mod n))
    \<and> (out = Finished \<and> 0 < n \<longrightarrow>
          batch_sampler_len s (length ys mod n) = int (length ys div n))
    \<and> (seed_in_range (seed s + epoch s) \<longrightarrow> out = Finished \<or> out = Raised IndexError)
    \<and> (\<not> seed_in_range (seed s + epoch s) \<longrightarrow> ys = [] \<and> out = Raised RuntimeError)"
proof (cases "seed_in_range (seed s + epoch s)")
  case False
  from iter_seed_rejected(1)[OF False, of R]
  have "ys = []" and "out = Raised RuntimeError" by (simp_all add: ys_def out_def)
  with False show ?thesis by simp
next
  case ok: True
  let ?bss = "fresh_batch_samplers (ranges s)"
  have len: "length ?bss = n" by (simp add: fresh_batch_samplers_def n_def)
  have it: "RoundRobinBatchSampler_iter R s
      = rr_loop R (shuffle s) (batch_size s) (drop_last s) 0 ?bss
          (manual_seed R (seed s + epoch s)) (trainer s)"
    using pos
    by (simp add: RoundRobinBatchSampler_iter_seeded[OF ok] new_batch_samplers_pos
        fresh_batch_samplers_def)
  show ?thesis
  proof (cases "n = 0")
    case True
    then have "RoundRobinBatchSampler_iter R s = ([], Finished)"
      by (simp add: it n_def fresh_batch_samplers_def rr_loop.simps)
    with True ok show ?thesis by (simp add: ys_def out_def)
  next
    case False
    have "0 < length ?bss" using False len by simp
    from rr_loop_inv[OF pos rng this, of "drop_last s" "shuffle s"
        "manual_seed R (seed s + epoch s)" "trainer s"]
    have inv: "rr_inv (batch_size s) (drop_last s) 0 ?bss (RoundRobinBatchSampler_iter R s)"
      by (simp add: it)
    have m: "k mod n < length (ranges s)" for k using False by (simp add: n_def)
    have a: "fst (ys ! k) = k mod n \<and> int (k div n) < batch_sampler_len s (k mod n)"
      if "k < length ys" for k
      using inv that batches_left_fresh[OF pos m, of k]
      by (auto simp: rr_inv_def len ys_def)
    have b: "batch_sampler_len s (length ys mod n) = int (length ys div n)"
      if "out = Finished"
      using inv that batches_left_fresh[OF pos m, of "length ys"]
      by (auto simp: rr_inv_def len ys_def out_def)
    have c: "out = Finished \<or> out = Raised IndexError"
      using inv by (simp add: rr_inv_def out_def)
    from a b c ok show ?thesis by blast
  qed
qed

theorem C3_round_robin_order_witness:
  "map fst (fst (RoundRobinBatchSampler_iter rotating_rng
        \<lparr> lengths = [6, 4], ranges = [(0, 6), (6, 10)], seed = 0, shuffle = False,
          drop_last = False, batch_size = 2, trainer = None, epoch = 0 \<rparr>))
     = [0, 1, 0, 1, 0]
   \<and> batch_sampler_len
        \<lparr> lengths = [6, 4], ranges = [(0, 6), (6, 10)], seed = 0, shuffle = False,
          drop_last = False, batch_size = 2, trainer = None, epoch = 0 \<rparr> 1 = 2"
proof -
  let ?s = "\<lparr> lengths = [6, 4], ranges = [(0, 6), (6, 10)], seed = 0, shuffle = False,
          drop_last = False, batch_size = 2, trainer = None, epoch = 0 \<rparr>"
  let ?p = "RoundRobinBatchSampler_iter rotating_rng ?s"
  have pos: "0 < batch_size ?s" by simp
  have r: "?p = ([(0, [0, 1], None), (1, [6, 7], None), (0, [2, 3], None),
                  (1, [8, 9], None), (0, [4, 5], None)], Finished)"
    by (simp add: run_defs upto_unfold)
  have l: "length (fst ?p) = 5" and n: "length (ranges ?s) = 2" and f: "snd ?p = Finished"
    by (simp_all add: r)
  from C3_round_robin_order[OF pos rng_ok_rotating_rng]
  have "snd ?p = Finished \<and> 0 < length (ranges ?s) \<longrightarrow>
      batch_sampler_len ?s (length (fst ?p) mod length (ranges ?s))
        = int (length (fst ?p) div length (ranges ?s))"
    by blast
  then have "batch_sampler_len ?s (5 mod 2) = int (5 div 2)"
    unfolding l n f by simp
  then show ?thesis by (simp add: r)
qed

subsection \<open>Determinism\<close>

lemma notify_ok_ex:
  assumes "notifier_ok n tr" "i < n"
  shows "\<exists>tr'. notify tr i = Inr tr' \<and> notifier_ok n tr'"
proof (cases tr)
  case None
  then show ?thesis by (simp add: notifier_ok_def notify_def)
next
  case (Some t)
  with assms show ?thesis
    by (cases "training_with_dataset_dict t") (auto simp: notifier_ok_def notify_def)
qed

lemma notify_ok:
  assumes "notifier_ok n tr" "i < n"
  obtains tr' where "notify tr i = Inr tr'" "notifier_ok n tr'"
  using notify_ok_ex[OF assms] by blast

lemma batches_of_emit:
  "batches_of (emit (i, bt, sl) p) = ((i, bt) # fst (batches_of p), snd (batches_of p))"
  by (simp add: batches_of_def emit_def)

lemma rr_loop_trainer:
  assumes "notifier_ok (length bss) tr1" "notifier_ok (length bss) tr2"
  shows "batches_of (rr_loop R sh bsize dl i bss g tr1)
       = batches_of (rr_loop R sh bsize dl i bss g tr2)"
  using assms
proof (induction R sh bsize dl i bss g tr1 arbitrary: tr2 rule: rr_loop.induct)
  case (1 R sh bsize dl i bss g tr1)
  show ?case
  proof (cases "length bss \<le> i")
    case True
    then show ?thesis by (simp add: rr_loop.simps[of _ _ _ _ i bss])
  next
    case False
    then have i: "i < length bss" by simp
    obtain x b' g1 where nx: "BatchSampler_next R sh bsize dl (bss ! i) g = (x, b', g1)"
      by (metis prod_cases3)
    show ?thesis
    proof (cases x)
      case None
      with False nx show ?thesis by (simp add: rr_loop.simps[of _ _ _ _ i bss])
    next
      case (Some bt)
      from "1.prems"(1) i obtain tr1' where t1: "notify tr1 i = Inr tr1'"
        and o1: "notifier_ok (length bss) tr1'" by (rule notify_ok)
      from "1.prems"(2) i obtain tr2' where t2: "notify tr2 i = Inr tr2'"
        and o2: "notifier_ok (length bss) tr2'" by (rule notify_ok)
      have "batches_of (rr_loop R sh bsize dl (Suc i mod length bss) (bss[i := b']) g1 tr1')
          = batches_of (rr_loop R sh bsize dl (Suc i mod length bss) (bss[i := b']) g1 tr2')"
        using "1.IH"[OF False nx[symmetric] Some refl t1, of tr2'] o1 o2 by simp
      with False nx Some t1 t2 show ?thesis
        by (simp add: rr_loop.simps[of _ _ _ _ i bss] batches_of_emit)
    qed
  qed
qed

lemma prop_loop_trainer:
  assumes "notifier_ok n tr1" "notifier_ok n tr2" "\<forall>d\<in>set draws. d < n"
  shows "batches_of (prop_loop R sh bsize dl draws bss g tr1)
       = batches_of (prop_loop R sh bsize dl draws bss g tr2)"
  using assms
proof (induction draws arbitrary: bss g tr1 tr2)
  case Nil
  then show ?case by simp
next
  case (Cons d draws)
  obtain x b' g1 where nx: "BatchSampler_next R sh bsize dl (bss ! d) g = (x, b', g1)"
    by (metis prod_cases3)
  show ?case
  proof (cases x)
    case None
    with nx show ?thesis by simp
  next
    case (Some bt)
    from Cons.prems have d: "d < n" by simp
    from Cons.prems(1) d obtain tr1' where t1: "notify tr1 d = Inr tr1'"
      and o1: "notifier_ok n tr1'" by (rule notify_ok)
    from Cons.prems(2) d obtain tr2' where t2: "notify tr2 d = Inr tr2'"
      and o2: "notifier_ok n tr2'" by (rule notify_ok)
    have "batches_of (prop_loop R sh bsize dl draws (bss[d := b']) g1 tr1')
        = batches_of (prop_loop R sh bsize dl draws (bss[d := b']) g1 tr2')"
      using Cons.IH[OF o1 o2] Cons.prems(3) by simp
    with nx Some t1 t2 show ?thesis by (simp add: batches_of_emit)
  qed
qed

lemma notify_same:
  assumes "same_notifier tr1 tr2"
  shows "case notify tr1 i of
           Inl e \<Rightarrow> notify tr2 i = Inl e
         | Inr tr1' \<Rightarrow> (\<exists>tr2'. notify tr2 i = Inr tr2' \<and> same_notifier tr1' tr2')"
  using assms
  by (cases tr1; cases tr2) (auto simp: same_notifier_def notify_def)

lemma rr_loop_same_notifier:
  assumes "same_notifier tr1 tr2"
  shows "batches_of (rr_loop R sh bsize dl i bss g tr1)
       = batches_of (rr_loop R sh bsize dl i bss g tr2)"
  using assms
proof (induction R sh bsize dl i bss g tr1 arbitrary: tr2 rule: rr_loop.induct)
  case (1 R sh bsize dl i bss g tr1)
  show ?case
  proof (cases "length bss \<le> i")
    case True
    then show ?thesis by (simp add: rr_loop.simps[of _ _ _ _ i bss])
  next
    case False
    obtain x b' g1 where nx: "BatchSampler_next R sh bsize dl (bss ! i) g = (x, b', g1)"
      by (metis prod_cases3)
    show ?thesis
    proof (cases x)
      case None
      with False nx show ?thesis by (simp add: rr_loop.simps[of _ _ _ _ i bss])
    next
      case (Some bt)
      note ns = notify_same[OF "1.prems", of i]
      show ?thesis
      proof (cases "notify tr1 i")
        case (Inl e)
        with ns have "notify tr2 i = Inl e" by simp
        with Inl False nx Some show ?thesis
          by (simp add: rr_loop.simps[of _ _ _ _ i bss] batches_of_emit)
      next
        case (Inr tr1')
        with ns obtain tr2' where t2: "notify tr2 i = Inr tr2'"
          and sn: "same_notifier tr1' tr2'" by auto
        have "batches_of (rr_loop R sh bsize dl (Suc i mod length bss) (bss[i := b']) g1 tr1')
            = batches_of (rr_loop R sh bsize dl (Suc i mod length bss) (bss[i := b']) g1 tr2')"
          using "1.IH"[OF False nx[symmetric] Some refl Inr sn] .
        with False nx Some Inr t2 show ?thesis
          by (simp add: rr_loop.simps[of _ _ _ _ i bss] batches_of_emit)
      qed
    qed
  qed
qed

lemma prop_loop_same_notifier:
  assumes "same_notifier tr1 tr2"
  shows "batches_of (prop_loop R sh bsize dl draws bss g tr1)
       = batches_of (prop_loop R sh bsize dl draws bss g tr2)"
  using assms
proof (induction draws arbitrary: bss g tr1 tr2)
  case Nil
  then show ?case by simp
next
  case (Cons d draws)
  obtain x b' g1 where nx: "BatchSampler_next R sh bsize dl (bss ! d) g = (x, b', g1)"
    by (metis prod_cases3)
  show ?case
  proof (cases x)
    case None
    with nx show ?thesis by simp
  next
    case (Some bt)
    note ns = notify_same[OF Cons.prems, of d]
    show ?thesis
    proof (cases "notify tr1 d")
      case (Inl e)
      with ns have "notify tr2 d = Inl e" by simp
      with Inl nx Some show ?thesis by (simp add: batches_of_emit)
    next
      case (Inr tr1')
      with ns obtain tr2' where t2: "notify tr2 d = Inr tr2'"
        and sn: "same_notifier tr1' tr2'" by auto
      from Cons.IH[OF sn] nx Some Inr t2 show ?thesis by (simp add: batches_of_emit)
    qed
  qed
qed

lemma count_list_replicate: "count_list (replicate n x) y = (if x = y then n else 0)"
  by (induction n) auto

lemma count_draw_list_from:
  "count_list (concat (map (\<lambda>(idx, l). replicate (nat l) idx) (enumerate k lens))) i
     = (if k \<le> i \<and> i < k + length lens then nat (lens ! (i - k)) else 0)"
proof (induction lens arbitrary: k)
  case Nil
  then show ?case by simp
next
  case (Cons l lens)
  have "count_list (concat (map (\<lambda>(idx, l). replicate (nat l) idx) (enumerate k (l # lens)))) i
      = (if k = i then nat l else 0)
        + (if Suc k \<le> i \<and> i < Suc k + length lens then nat (lens ! (i - Suc k)) else 0)"
    by (simp add: count_list_append count_list_replicate Cons.IH)
  also have "\<dots> = (if k \<le> i \<and> i < k + length (l # lens) then nat ((l # lens) ! (i - k)) else 0)"
    by (auto simp: nth_Cons' Suc_diff_le)
  finally show ?case .
qed

lemma count_draw_list:
  "count_list (draw_list lens) i = (if i < length lens then nat (lens ! i) else 0)"
  by (simp add: draw_list_def count_draw_list_from)

lemma set_draw_list: "d \<in> set (draw_list lens) \<Longrightarrow> d < length lens"
  using count_draw_list[of lens d] by (auto simp: count_list_0_iff split: if_splits)

lemma length_draw_list: "length (draw_list lens) = sum_list (map nat lens)"
proof -
  have "length (concat (map (\<lambda>(idx, l). replicate (nat l) idx) (enumerate k lens)))
      = sum_list (map nat lens)" for k
    by (induction lens arbitrary: k) auto
  then show ?thesis by (simp add: draw_list_def)
qed

lemma mset_permuted:
  assumes "rng_ok R"
  shows "mset (map (\<lambda>i. xs ! i) (fst (randperm R g (length xs)))) = mset xs"
proof -
  have "mset (map (\<lambda>i. xs ! i) (fst (randperm R g (length xs))))
      = image_mset (\<lambda>i. xs ! i) (mset (fst (randperm R g (length xs))))" by simp
  also have "\<dots> = image_mset (\<lambda>i. xs ! i) (mset [0..<length xs])"
    using assms by (simp only: rng_ok_def)
  also have "\<dots> = mset (map (\<lambda>i. xs ! i) [0..<length xs])" by (simp del: mset_upt)
  also have "\<dots> = mset xs" by (simp only: map_nth)
  finally show ?thesis .
qed

lemma new_batch_samplers_length:
  "new_batch_samplers bsize rs = Inr bss \<Longrightarrow> length bss = length rs"
  by (induction rs arbitrary: bss) (auto split: sum.splits)

lemma set_permuted:
  assumes "rng_ok R"
  shows "set (map (\<lambda>i. xs ! i) (fst (randperm R g (length xs)))) = set xs"
  using mset_permuted[OF assms, of xs g] by (metis set_mset_mset)

lemma RoundRobin_iter_trainer:
  assumes "same_notifier tr1 tr2
         \<or> (notifier_ok (length (ranges s)) tr1 \<and> notifier_ok (length (ranges s)) tr2)"
  shows "batches_of (RoundRobinBatchSampler_iter R (s\<lparr> trainer := tr1 \<rparr>))
       = batches_of (RoundRobinBatchSampler_iter R (s\<lparr> trainer := tr2 \<rparr>))"
proof (cases "seed_in_range (seed s + epoch s)")
  case False
  then have "RoundRobinBatchSampler_iter R (s\<lparr> trainer := tr \<rparr>) = ([], Raised RuntimeError)"
    for tr
    by (simp add: iter_seed_rejected(1))
  then show ?thesis by simp
next
  case ok: True
  have sd: "RoundRobinBatchSampler_iter R (s\<lparr> trainer := tr \<rparr>) =
     (case new_batch_samplers (batch_size s) (ranges s) of
        Inl e \<Rightarrow> ([], Raised e)
      | Inr batch_samplers \<Rightarrow>
          rr_loop R (shuffle s) (batch_size s) (drop_last s) 0 batch_samplers
            (manual_seed R (seed s + epoch s)) tr)" for tr
    using ok RoundRobinBatchSampler_iter_seeded[of "s\<lparr> trainer := tr \<rparr>" R]
    by (simp cong: sum.case_cong)
  show ?thesis
  proof (cases "new_batch_samplers (batch_size s) (ranges s)")
    case (Inl e)
    then show ?thesis by (simp add: sd)
  next
    case (Inr bss)
    then have "length bss = length (ranges s)" by (rule new_batch_samplers_length)
    with assms have "batches_of (rr_loop R (shuffle s) (batch_size s) (drop_last s) 0 bss
          (manual_seed R (seed s + epoch s)) tr1)
        = batches_of (rr_loop R (shuffle s) (batch_size s) (drop_last s) 0 bss
          (manual_seed R (seed s + epoch s)) tr2)"
      by (auto intro: rr_loop_same_notifier rr_loop_trainer)
    with Inr show ?thesis by (simp add: sd)
  qed
qed

lemma Proportional_iter_trainer:
  assumes "rng_ok R"
    and "same_notifier tr1 tr2
         \<or> (notifier_ok (length (ranges s)) tr1 \<and> notifier_ok (length (ranges s)) tr2)"
  shows "batches_of (ProportionalBatchSampler_iter R (s\<lparr> trainer := tr1 \<rparr>))
       = batches_of (ProportionalBatchSampler_iter R (s\<lparr> trainer := tr2 \<rparr>))"
proof (cases "seed_in_range (seed s + epoch s)")
  case False
  then have "ProportionalBatchSampler_iter R (s\<lparr> trainer := tr \<rparr>) = ([], Raised RuntimeError)"
    for tr
    by (simp add: iter_seed_rejected(2))
  then show ?thesis by simp
next
  case ok: True
  have sd: "ProportionalBatchSampler_iter R (s\<lparr> trainer := tr \<rparr>) =
     (case new_batch_samplers (batch_size s) (ranges s) of
        Inl e \<Rightarrow> ([], Raised e)
      | Inr batch_samplers \<Rightarrow>
          (let lens = map (\<lambda>(a, b). BatchSampler_len (batch_size s) (drop_last s) a b)
                        (ranges s);
               indices = draw_list lens;
               (p, g') = randperm R (manual_seed R (seed s + epoch s)) (length indices)
           in prop_loop R (shuffle s) (batch_size s) (drop_last s)
                (map (\<lambda>i. indices ! i) p) batch_samplers g' tr))" for tr
    using ok ProportionalBatchSampler_iter_seeded[of "s\<lparr> trainer := tr \<rparr>" R]
    by (simp cong: sum.case_cong)
  show ?thesis
  proof (cases "new_batch_samplers (batch_size s) (ranges s)")
    case (Inl e)
    then show ?thesis by (simp add: sd)
  next
    case (Inr bss)
    define lens where "lens = map (\<lambda>(a, b). BatchSampler_len (batch_size s) (drop_last s) a b)
                          (ranges s)"
    define g where "g = manual_seed R (seed s + epoch s)"
    obtain p g' where rp: "randperm R g (length (draw_list lens)) = (p, g')"
      by (cases "randperm R g (length (draw_list lens))")
    define draws where "draws = map (\<lambda>i. draw_list lens ! i) p"
    have it: "ProportionalBatchSampler_iter R (s\<lparr> trainer := tr \<rparr>)
        = prop_loop R (shuffle s) (batch_size s) (drop_last s) draws bss g' tr" for tr
      using Inr rp
      by (simp add: sd Let_def lens_def[symmetric] g_def[symmetric] draws_def)
    have "set draws = set (draw_list lens)"
      using set_permuted[OF assms(1), of "draw_list lens" g] rp by (simp add: draws_def)
    then have "\<forall>d\<in>set draws. d < length (ranges s)"
      using set_draw_list[of _ lens] by (simp add: lens_def)
    with assms(2) show ?thesis unfolding it
      by (auto intro: prop_loop_same_notifier prop_loop_trainer)
  qed
qed

lemma sampler_init_eq:
  "sampler_init ls bsize dl sd sh tr
     = Inr \<lparr> lengths = ls,
             ranges = zip (0 # accumulate_from 0 ls) (accumulate_from 0 ls),
             seed = sd, shuffle = sh, drop_last = dl, batch_size = bsize,
             trainer = tr, epoch = 0 \<rparr>"
  by (simp add: sampler_init_def accumulate_def Let_def)

text \<open>
  Claim C4.  For both schedulers the batches of a pass, in order and with their dataset
  indices, and the way the pass ends, are a function of lengths, batch size,
  \<open>drop_last\<close>, \<open>shuffle\<close>, seed and epoch: two samplers constructed with these
  equal and set to the same epoch give the same sequence, under the same generator
  algorithm, whenever their trainers agree up to what \<open>dataset_name\<close> holds at the
  time (two passes of one sampler), or each trainer can be notified for every dataset.
\<close>

theorem C4_determinism:
  fixes R :: "'g rng"
  assumes rng: "rng_ok R"
    and tr: "same_notifier tr1 tr2
           \<or> (notifier_ok (length ls) tr1 \<and> notifier_ok (length ls) tr2)"
  shows "(case (RoundRobinBatchSampler_init ls bsize dl sd sh tr1,
               RoundRobinBatchSampler_init ls bsize dl sd sh tr2) of
            (Inr s1, Inr s2) \<Rightarrow>
              batches_of (RoundRobinBatchSampler_iter R (set_epoch s1 e))
                = batches_of (RoundRobinBatchSampler_iter R (set_epoch s2 e))
          | _ \<Rightarrow> False)
       \<and> (case (ProportionalBatchSampler_init ls bsize dl sd sh tr1,
               ProportionalBatchSampler_init ls bsize dl sd sh tr2) of
            (Inr s1, Inr s2) \<Rightarrow>
              batches_of (ProportionalBatchSampler_iter R (set_epoch s1 e))
                = batches_of (ProportionalBatchSampler_iter R (set_epoch s2 e))
          | _ \<Rightarrow> False)"
proof -
  let ?s = "\<lparr> lengths = ls,
             ranges = zip (0 # accumulate_from 0 ls) (accumulate_from 0 ls),
             seed = sd, shuffle = sh, drop_last = dl, batch_size = bsize,
             trainer = None, epoch = e \<rparr>"
  have n: "length (ranges ?s) = length ls" by simp
  have s: "set_epoch \<lparr> lengths = ls,
             ranges = zip (0 # accumulate_from 0 ls) (accumulate_from 0 ls),
             seed = sd, shuffle = sh, drop_last = dl, batch_size = bsize,
             trainer = t, epoch = 0 \<rparr> e = ?s\<lparr> trainer := t \<rparr>" for t
    by (simp add: set_epoch_def)
  from tr have tr': "same_notifier tr1 tr2
      \<or> (notifier_ok (length (ranges ?s)) tr1 \<and> notifier_ok (length (ranges ?s)) tr2)"
    unfolding n .
  show ?thesis
    unfolding RoundRobinBatchSampler_init_def ProportionalBatchSampler_init_def
      sampler_init_eq
    using RoundRobin_iter_trainer[OF tr', of R] Proportional_iter_trainer[OF rng tr']
    by (simp add: s)
qed

theorem C4_determinism_witness:
  "batches_of (RoundRobinBatchSampler_iter rotating_rng
       \<lparr> lengths = [4, 6], ranges = [(0, 4), (4, 10)], seed = 3, shuffle = True,
         drop_last = False, batch_size = 2, trainer = None, epoch = 2 \<rparr>)
     = batches_of (RoundRobinBatchSampler_iter rotating_rng
       \<lparr> lengths = [4, 6], ranges = [(0, 4), (4, 10)], seed = 3, shuffle = True,
         drop_last = False, batch_size = 2,
         trainer = Some \<lparr> training_with_dataset_dict = True,
                          dataset_names = [''a'', ''b''], dataset_name = None \<rparr>,
         epoch = 2 \<rparr>)
   \<and> batches_of (ProportionalBatchSampler_iter rotating_rng
       \<lparr> lengths = [4, 6], ranges = [(0, 4), (4, 10)], seed = 3, shuffle = True,
         drop_last = False, batch_size = 2, trainer = None, epoch = 2 \<rparr>)
     = batches_of (ProportionalBatchSampler_iter rotating_rng
       \<lparr> lengths = [4, 6], ranges = [(0, 4), (4, 10)], seed = 3, shuffle = True,
         drop_last = False, batch_size = 2,
         trainer = Some \<lparr> training_with_dataset_dict = True,
                          dataset_names = [''a'', ''b''], dataset_name = None \<rparr>,
         epoch = 2 \<rparr>)"
proof -
  let ?t = "Some \<lparr> training_with_dataset_dict = True,
                    dataset_names = [''a'', ''b''], dataset_name = None \<rparr>"
  have h: "same_notifier None ?t
      \<or> (notifier_ok (length [4, 6 :: int]) None \<and> notifier_ok (length [4, 6 :: int]) ?t)"
    by (simp add: notifier_ok_def)
  from C4_determinism[OF rng_ok_rotating_rng h, where bsize = 2 and dl = False and sd = 3
      and sh = True and e = 2]
  show ?thesis
    by (simp add: RoundRobinBatchSampler_init_def ProportionalBatchSampler_init_def
        sampler_init_eq set_epoch_def)
qed

subsection \<open>A proportional pass drains every dataset\<close>

lemma tagged_emit:
  "tagged i (emit (d, bt, sl) p) = (if d = i then bt # tagged i p else tagged i p)"
  by (simp add: tagged_def emit_def)

lemma length_remaining_batches:
  assumes "0 < bsize" "rng_ok R"
  shows "length (remaining_batches R sh bsize dl b g) = batches_left bsize dl b"
proof -
  have "int (length (remaining_batches R sh bsize dl b g)) = int (batches_left bsize dl b)"
    using length_batches[OF assms(1)] length_sampler_elements[OF assms(2)]
      batch_count_nonneg[OF assms(1)]
    by (cases b) (simp_all add: remaining_batches_def batches_left_def)
  then show ?thesis by simp
qed

lemma prop_loop_inv:
  assumes pos: "0 < bsize" and rng: "rng_ok R"
    and ok: "notifier_ok (length bss) tr"
    and dr: "\<forall>d\<in>set draws. d < length bss"
    and cnt: "\<forall>i<length bss. count_list draws i = batches_left bsize dl (bss ! i)"
  shows "snd (prop_loop R sh bsize dl draws bss g tr) = Finished
       \<and> map fst (fst (prop_loop R sh bsize dl draws bss g tr)) = draws
       \<and> (\<forall>i<length bss. \<exists>gi. tagged i (prop_loop R sh bsize dl draws bss g tr)
              = remaining_batches R sh bsize dl (bss ! i) gi)"
  using ok dr cnt
proof (induction draws arbitrary: bss g tr)
  case Nil
  have "remaining_batches R sh bsize dl (bss ! i) g = []" if "i < length bss" for i
    using Nil.prems(3) that length_remaining_batches[OF pos rng, of sh dl "bss ! i" g]
    by simp
  then have "\<exists>gi. [] = remaining_batches R sh bsize dl (bss ! i) gi" if "i < length bss" for i
    using that by (intro exI[of _ g]) simp
  then show ?case by (simp add: tagged_def)
next
  case (Cons d draws)
  from Cons.prems(2) have d: "d < length bss" by simp
  obtain x b' g1 where nx: "BatchSampler_next R sh bsize dl (bss ! d) g = (x, b', g1)"
    by (metis prod_cases3)
  note left = BatchSampler_next_left[OF pos rng nx]
  have cd: "batches_left bsize dl (bss ! d) = Suc (count_list draws d)"
    using Cons.prems(3)[rule_format, OF d] by simp
  with left obtain bt where x: "x = Some bt"
    and l: "batches_left bsize dl (bss ! d) = Suc (batches_left bsize dl b')"
    by (cases x) simp_all
  from Cons.prems(1) d obtain tr' where t: "notify tr d = Inr tr'"
    and ok': "notifier_ok (length bss) tr'" by (rule notify_ok)
  let ?bss = "bss[d := b']"
  let ?p = "prop_loop R sh bsize dl draws ?bss g1 tr'"
  have r: "prop_loop R sh bsize dl (d # draws) bss g tr = emit (d, bt, slot tr) ?p"
    using nx x t by simp
  have ok'': "notifier_ok (length ?bss) tr'" using ok' by simp
  have dr': "\<forall>d\<in>set draws. d < length ?bss" using Cons.prems(2) by simp
  have cnt': "\<forall>i<length ?bss. count_list draws i = batches_left bsize dl (?bss ! i)"
  proof (intro allI impI)
    fix i assume "i < length ?bss"
    then have i: "i < length bss" by simp
    show "count_list draws i = batches_left bsize dl (?bss ! i)"
    proof (cases "i = d")
      case True
      with cd l d show ?thesis by simp
    next
      case False
      with Cons.prems(3)[rule_format, OF i] i show ?thesis by simp
    qed
  qed
  note IH = Cons.IH[OF ok'' dr' cnt', of g1]
  have tg: "\<exists>gi. tagged i (emit (d, bt, slot tr) ?p)
               = remaining_batches R sh bsize dl (bss ! i) gi"
    if i: "i < length bss" for i
  proof (cases "i = d")
    case True
    from IH i True obtain gi where
      "tagged d ?p = remaining_batches R sh bsize dl (?bss ! d) gi" by auto
    then have "tagged d ?p = remaining_batches R sh bsize dl b' gi" using d by simp
    moreover have "remaining_batches R sh bsize dl (bss ! d) g
        = bt # remaining_batches R sh bsize dl b' gi"
      using nx[unfolded x] by (rule BatchSampler_next_remaining)
    ultimately have "tagged d (emit (d, bt, slot tr) ?p)
        = remaining_batches R sh bsize dl (bss ! d) g"
      by (simp add: tagged_emit)
    with True show ?thesis by blast
  next
    case False
    from IH i obtain gi where
      "tagged i ?p = remaining_batches R sh bsize dl (?bss ! i) gi" by auto
    with False have "tagged i (emit (d, bt, slot tr) ?p)
        = remaining_batches R sh bsize dl (bss ! i) gi"
      by (simp add: tagged_emit)
    then show ?thesis by blast
  qed
  have "snd (emit (d, bt, slot tr) ?p) = Finished" using IH by (simp add: emit_def)
  moreover have "map fst (fst (emit (d, bt, slot tr) ?p)) = d # draws"
    using IH by (simp add: emit_def)
  ultimately show ?case unfolding r using tg by blast
qed

lemma count_list_permuted:
  assumes "rng_ok R"
  shows "count_list (map (\<lambda>i. xs ! i) (fst (randperm R g (length xs)))) x = count_list xs x"
  using mset_permuted[OF assms, of xs g] by (metis count_mset)

lemma sum_list_take_Suc:
  "i < length (ls :: int list) \<Longrightarrow> sum_list (take (Suc i) ls) = sum_list (take i ls) + ls ! i"
  by (simp add: take_Suc_conv_app_nth)

lemma init_range_length:
  assumes init: "RoundRobinBatchSampler_init ls bsize dl sd sh tr = Inr s
               \<or> ProportionalBatchSampler_init ls bsize dl sd sh tr = Inr s"
    and nonneg: "\<forall>l\<in>set ls. 0 \<le> l" and i: "i < length ls"
  shows "int (length (py_range (fst (ranges s ! i)) (snd (ranges s ! i)))) = ls ! i"
proof -
  have "ranges s ! i = (sum_list (take i ls), sum_list (take (Suc i) ls))"
    using sampler_init_ranges(1)[OF init] ranges_from_nth[OF i, of 0] by simp
  moreover have "0 \<le> ls ! i" using nonneg i by simp
  ultimately show ?thesis using i by (simp add: length_py_range sum_list_take_Suc)
qed

lemma init_batch_sampler_lens:
  assumes init: "RoundRobinBatchSampler_init ls bsize dl sd sh tr = Inr s
               \<or> ProportionalBatchSampler_init ls bsize dl sd sh tr = Inr s"
    and nonneg: "\<forall>l\<in>set ls. 0 \<le> l"
  shows "map (\<lambda>(a, b). BatchSampler_len bsize dl a b) (ranges s) = map (batch_count bsize dl) ls"
proof (rule nth_equalityI)
  show "length (map (\<lambda>(a, b). BatchSampler_len bsize dl a b) (ranges s))
      = length (map (batch_count bsize dl) ls)"
    using sampler_init_ranges(1)[OF init] by simp
next
  fix i assume "i < length (map (\<lambda>(a, b). BatchSampler_len bsize dl a b) (ranges s))"
  then have i: "i < length ls" using sampler_init_ranges(1)[OF init] by simp
  then have ir: "i < length (ranges s)" using sampler_init_ranges(1)[OF init] by simp
  from init_range_length[OF init nonneg i] ir i
  show "map (\<lambda>(a, b). BatchSampler_len bsize dl a b) (ranges s) ! i
      = map (batch_count bsize dl) ls ! i"
    by (cases "ranges s ! i") (simp add: BatchSampler_len_def batch_count_def Let_def)
qed

lemma batch_count_floor_ceil:
  assumes "0 < bsize"
  shows "batch_count bsize dl l
       = (if dl then \<lfloor>real_of_int l / real_of_int bsize\<rfloor>
          else \<lceil>real_of_int l / real_of_int bsize\<rceil>)"
  using ceil_div[OF assms, of l] by (simp add: batch_count_def floor_divide_of_int_eq)

lemma sum_list_nat_batch_count:
  assumes "0 < bsize" "\<forall>l\<in>set ls. 0 \<le> l"
  shows "int (sum_list (map nat (map (batch_count bsize dl) ls)))
       = sum_list (map (batch_count bsize dl) ls)"
  using assms(2)
proof (induction ls)
  case Nil
  then show ?case by simp
next
  case (Cons l ls)
  then have "0 \<le> l" by simp
  then have "0 \<le> batch_count bsize dl l"
    using batch_count_nonneg[OF assms(1), of dl "nat l"] by simp
  with Cons show ?case by simp
qed

text \<open>
  Claim C2.  For a proportional sampler constructed with non-negative lengths and a
  positive batch size, at an epoch for which \<open>seed + epoch\<close> is a seed torch
  accepts, with a trainer that can be notified for every dataset: the pass runs to the end of its draw list, no pull meeting an exhausted batch
  sampler; it yields as many batches as the sum over the datasets of
  \<open>floor(L / batch_size)\<close> with \<open>drop_last\<close> and \<open>ceil(L / batch_size)\<close> without,
  which is what \<open>__len__\<close> returns; the batches it yields from dataset \<open>i\<close> are, in
  order, all the batches that iterating that dataset's batch sampler to exhaustion
  gives (over the index sequence the sampler drew when it was first advanced), each
  once; and every batch comes from one of the datasets.
\<close>

theorem C2_proportional_pass:
  fixes R :: "'g rng" and ls :: "int list" and bsize sd e :: int and dl sh :: bool
    and tr :: "trainer option" and s0 :: sampler
  assumes init: "ProportionalBatchSampler_init ls bsize dl sd sh tr = Inr s0"
    and pos: "0 < bsize" and nonneg: "\<forall>l\<in>set ls. 0 \<le> l"
    and rng: "rng_ok R" and ok: "notifier_ok (length ls) tr"
    and seeded: "seed_in_range (sd + e)"
  defines "p \<equiv> ProportionalBatchSampler_iter R (set_epoch s0 e)"
  shows "snd p = Finished
    \<and> int (length (fst p))
        = (\<Sum>l\<leftarrow>ls. if dl then \<lfloor>real_of_int l / real_of_int bsize\<rfloor>
                   else \<lceil>real_of_int l / real_of_int bsize\<rceil>)
    \<and> ProportionalBatchSampler_len (set_epoch s0 e) = Inr (int (length (fst p)))
    \<and> (\<forall>i<length ls. \<exists>g. tagged i p
          = BatchSampler_list R sh bsize dl
              (Fresh (fst (ranges s0 ! i)) (snd (ranges s0 ! i))) g)
    \<and> (\<forall>i<length ls. int (length (tagged i p))
          = (if dl then \<lfloor>real_of_int (ls ! i) / real_of_int bsize\<rfloor>
             else \<lceil>real_of_int (ls ! i) / real_of_int bsize\<rceil>))
    \<and> (\<forall>y\<in>set (fst p). fst y < length ls)"
proof -
  have init': "RoundRobinBatchSampler_init ls bsize dl sd sh tr = Inr s0
             \<or> ProportionalBatchSampler_init ls bsize dl sd sh tr = Inr s0"
    using init by simp
  note f = sampler_init_ranges[OF init']
  let ?s = "set_epoch s0 e"
  have fs: "ranges ?s = ranges s0" "batch_size ?s = bsize" "drop_last ?s = dl"
    "shuffle ?s = sh" "trainer ?s = tr" "lengths ?s = ls" "seed ?s = sd" "epoch ?s = e"
    using f by (simp_all add: set_epoch_def)
  have sr: "seed_in_range (seed ?s + epoch ?s)" using seeded by (simp only: fs)
  have n: "length (ranges s0) = length ls" using f(1) by simp
  define bss where "bss = fresh_batch_samplers (ranges s0)"
  have nb: "length bss = length ls" by (simp add: bss_def fresh_batch_samplers_def n)
  define lens where "lens = map (batch_count bsize dl) ls"
  have lens: "map (\<lambda>(a, b). BatchSampler_len bsize dl a b) (ranges s0) = lens"
    unfolding lens_def using init' nonneg by (rule init_batch_sampler_lens)
  define g where "g = manual_seed R (seed ?s + epoch ?s)"
  define draws where "draws = map (\<lambda>i. draw_list lens ! i)
                                 (fst (randperm R g (length (draw_list lens))))"
  have it: "p = prop_loop R sh bsize dl draws bss (snd (randperm R g (length (draw_list lens)))) tr"
    using pos
    by (simp add: p_def ProportionalBatchSampler_iter_seeded[OF sr] fs(1-6)
        new_batch_samplers_pos lens Let_def g_def[symmetric] draws_def bss_def
        fresh_batch_samplers_def split: prod.splits)
  have cl: "count_list draws i = (if i < length lens then nat (lens ! i) else 0)" for i
    unfolding draws_def count_list_permuted[OF rng] by (rule count_draw_list)
  have dr: "\<forall>d\<in>set draws. d < length bss"
  proof
    fix d assume "d \<in> set draws"
    then have "count_list draws d \<noteq> 0" by (simp add: count_list_0_iff)
    with cl[of d] show "d < length bss" by (auto simp: nb lens_def split: if_splits)
  qed
  have left: "batches_left bsize dl (bss ! i) = nat (lens ! i)" if i: "i < length ls" for i
  proof -
    have "bss ! i = Fresh (fst (ranges s0 ! i)) (snd (ranges s0 ! i))"
      using i n by (simp add: bss_def fresh_batch_samplers_def split: prod.splits)
    then show ?thesis
      using init_range_length[OF init' nonneg i] i
      by (simp add: batches_left_def lens_def)
  qed
  have cnt: "\<forall>i<length bss. count_list draws i = batches_left bsize dl (bss ! i)"
    using cl left by (simp add: nb lens_def)
  have ok': "notifier_ok (length bss) tr" using ok by (simp add: nb)
  note inv = prop_loop_inv[OF pos rng ok' dr cnt, of sh
      "snd (randperm R g (length (draw_list lens)))", folded it]
  from inv have fin: "snd p = Finished" and tags: "map fst (fst p) = draws"
    and tg: "\<And>i. i < length ls \<Longrightarrow>
          \<exists>gi. tagged i p = remaining_batches R sh bsize dl (bss ! i) gi"
    by (simp_all add: nb)
  have "length (fst p) = length draws" using tags by (metis length_map)
  also have "\<dots> = length (draw_list lens)" by (simp add: draws_def rng_ok_length[OF rng])
  also have "\<dots> = sum_list (map nat lens)" by (rule length_draw_list)
  finally have "int (length (fst p)) = sum_list lens"
    using sum_list_nat_batch_count[OF pos nonneg, of dl] by (simp add: lens_def)
  then have total: "int (length (fst p)) = sum_list (map (batch_count bsize dl) ls)"
    by (simp add: lens_def)
  have c2: "int (length (fst p))
        = (\<Sum>l\<leftarrow>ls. if dl then \<lfloor>real_of_int l / real_of_int bsize\<rfloor>
                   else \<lceil>real_of_int l / real_of_int bsize\<rceil>)"
    unfolding total using batch_count_floor_ceil[OF pos, of dl]
    by (intro arg_cong[where f = sum_list] map_cong) simp_all
  have c3: "ProportionalBatchSampler_len ?s = Inr (int (length (fst p)))"
  proof -
    have "batch_counts ?s = Inr (map (batch_count bsize dl) ls)"
      using pos by (simp add: batch_counts_def fs(1-6) batch_count_def[abs_def] cong: if_cong)
    with total show ?thesis by (simp add: ProportionalBatchSampler_len_def)
  qed
  have c4: "\<exists>g. tagged i p = BatchSampler_list R sh bsize dl
              (Fresh (fst (ranges s0 ! i)) (snd (ranges s0 ! i))) g"
    if i: "i < length ls" for i
  proof -
    have "bss ! i = Fresh (fst (ranges s0 ! i)) (snd (ranges s0 ! i))"
      using i n by (simp add: bss_def fresh_batch_samplers_def split: prod.splits)
    with tg[OF i] show ?thesis by (simp add: BatchSampler_list_remaining)
  qed
  have c5: "int (length (tagged i p))
          = (if dl then \<lfloor>real_of_int (ls ! i) / real_of_int bsize\<rfloor>
             else \<lceil>real_of_int (ls ! i) / real_of_int bsize\<rceil>)"
    if i: "i < length ls" for i
  proof -
    from tg[OF i] obtain gi where "tagged i p = remaining_batches R sh bsize dl (bss ! i) gi"
      by blast
    then have "length (tagged i p) = nat (lens ! i)"
      using length_remaining_batches[OF pos rng, of sh dl "bss ! i" gi] left[OF i] by simp
    moreover have "0 \<le> lens ! i"
      using i nonneg batch_count_nonneg[OF pos, of dl "nat (ls ! i)"] by (simp add: lens_def)
    ultimately have "int (length (tagged i p)) = batch_count bsize dl (ls ! i)"
      using i by (simp add: lens_def)
    then show ?thesis by (simp only: batch_count_floor_ceil[OF pos])
  qed
  have c6: "\<forall>y\<in>set (fst p). fst y < length ls"
  proof
    fix y assume "y \<in> set (fst p)"
    then have "fst y \<in> set (map fst (fst p))" by simp
    with tags dr show "fst y < length ls" by (simp add: nb)
  qed
  from fin c2 c3 c4 c5 c6 show ?thesis by blast
qed

theorem C2_proportional_pass_witness:
  "snd (ProportionalBatchSampler_iter rotating_rng
       \<lparr> lengths = [4, 6], ranges = [(0, 4), (4, 10)], seed = 0, shuffle = True,
         drop_last = False, batch_size = 2, trainer = None, epoch = 1 \<rparr>) = Finished
   \<and> length (fst (ProportionalBatchSampler_iter rotating_rng
       \<lparr> lengths = [4, 6], ranges = [(0, 4), (4, 10)], seed = 0, shuffle = True,
         drop_last = False, batch_size = 2, trainer = None, epoch = 1 \<rparr>)) = 5
   \<and> ProportionalBatchSampler_len
       \<lparr> lengths = [4, 6], ranges = [(0, 4), (4, 10)], seed = 0, shuffle = True,
         drop_last = False, batch_size = 2, trainer = None, epoch = 1 \<rparr> = Inr 5"
proof -
  let ?init = "\<lparr> lengths = [4, 6], ranges = [(0, 4), (4, 10)], seed = 0, shuffle = True,
         drop_last = False, batch_size = 2, trainer = None, epoch = 0 \<rparr>"
  let ?s = "\<lparr> lengths = [4, 6], ranges = [(0, 4), (4, 10)], seed = 0, shuffle = True,
         drop_last = False, batch_size = 2, trainer = None, epoch = 1 \<rparr>"
  let ?p = "ProportionalBatchSampler_iter rotating_rng ?s"
  have init: "ProportionalBatchSampler_init [4, 6] 2 False 0 True None = Inr ?init"
    by (simp add: ProportionalBatchSampler_init_def sampler_init_def accumulate_def)
  have se: "set_epoch ?init 1 = ?s" by (simp add: set_epoch_def)
  have pos: "0 < (2::int)" by simp
  have nonneg: "\<forall>l\<in>set [4, 6 :: int]. 0 \<le> l" by simp
  have ok: "notifier_ok (length [4, 6 :: int]) None" by (simp add: notifier_ok_def)
  have seeded: "seed_in_range (0 + 1)" by (simp add: seed_in_range_def)
  note t = C2_proportional_pass[OF init pos nonneg rng_ok_rotating_rng ok seeded, unfolded se]
  have a: "snd ?p = Finished" using t by (rule conjunct1)
  have b: "int (length (fst ?p)) = 5"
    using t[THEN conjunct2, THEN conjunct1] by simp
  have c: "ProportionalBatchSampler_len ?s = Inr (int (length (fst ?p)))"
    using t[THEN conjunct2, THEN conjunct2, THEN conjunct1] .
  from a b c show ?thesis by simp
qed

subsection \<open>How many batches a round-robin pass yields\<close>

lemma rr_loop_finished:
  assumes "notifier_ok (length bss) tr"
  shows "snd (rr_loop R sh bsize dl i bss g tr) = Finished"
  using assms
proof (induction R sh bsize dl i bss g tr rule: rr_loop.induct)
  case (1 R sh bsize dl i bss g tr)
  show ?case
  proof (cases "length bss \<le> i")
    case True
    then show ?thesis by (simp add: rr_loop.simps[of _ _ _ _ i bss])
  next
    case False
    then have i: "i < length bss" by simp
    obtain x b' g1 where nx: "BatchSampler_next R sh bsize dl (bss ! i) g = (x, b', g1)"
      by (metis prod_cases3)
    show ?thesis
    proof (cases x)
      case None
      with False nx show ?thesis by (simp add: rr_loop.simps[of _ _ _ _ i bss])
    next
      case (Some bt)
      from "1.prems" i obtain tr' where t: "notify tr i = Inr tr'"
        and o: "notifier_ok (length bss) tr'" by (rule notify_ok)
      have "snd (rr_loop R sh bsize dl (Suc i mod length bss) (bss[i := b']) g1 tr') = Finished"
        using "1.IH"[OF False nx[symmetric] Some refl t] o by simp
      with False nx Some t show ?thesis
        by (simp add: rr_loop.simps[of _ _ _ _ i bss] emit_def)
    qed
  qed
qed

lemma first_minimum:
  fixes c :: "nat \<Rightarrow> nat"
  assumes n: "0 < n"
    and A: "\<forall>k<t. k div n < c (k mod n)"
    and B: "c (t mod n) = t div n"
  shows "(\<forall>i<n. c (t mod n) \<le> c i) \<and> (\<forall>i<t mod n. c (t mod n) < c i)
       \<and> t = c (t mod n) * n + t mod n"
proof (intro conjI allI impI)
  fix i assume i: "i < n"
  show "c (t mod n) \<le> c i"
  proof (rule ccontr)
    assume "\<not> c (t mod n) \<le> c i"
    then have lt: "c i < t div n" using B by simp
    define k where "k = c i * n + i"
    have "k < (c i + 1) * n" using i by (simp add: k_def)
    also have "\<dots> \<le> (t div n) * n" using lt by (intro mult_le_mono1) simp
    also have "\<dots> \<le> t" by simp
    finally have "k < t" .
    moreover have "k div n = c i" "k mod n = i" using i by (simp_all add: k_def)
    ultimately show False using A by force
  qed
next
  fix i assume i: "i < t mod n"
  then have "i < n" using n by (meson less_trans mod_less_divisor)
  show "c (t mod n) < c i"
  proof (rule ccontr)
    assume "\<not> c (t mod n) < c i"
    then have le: "c i \<le> t div n" using B by simp
    define k where "k = (t div n) * n + i"
    have "(t div n) * n + t mod n = t" by simp
    then have "k < t" using i unfolding k_def by linarith
    moreover have "k div n = t div n" "k mod n = i" using \<open>i < n\<close> by (simp_all add: k_def)
    ultimately have "t div n < c i" using A by force
    with le show False by simp
  qed
next
  show "t = c (t mod n) * n + t mod n" using B by simp
qed

lemma py_min_Min: "xs \<noteq> [] \<Longrightarrow> py_min xs = Inr (Min (set xs))"
proof (cases xs)
  case Nil
  assume "xs \<noteq> []"
  with Nil show ?thesis by simp
next
  case (Cons a list)
  then show ?thesis using Min.set_eq_fold[of a list] by (simp add: py_min_def)
qed

lemma batch_counts_eq:
  "batch_size s \<noteq> 0 \<Longrightarrow>
   batch_counts s = Inr (map (batch_count (batch_size s) (drop_last s)) (lengths s))"
  by (simp add: batch_counts_def batch_count_def[abs_def] cong: if_cong)

text \<open>
  The number of batches of a round-robin pass in general.  For a sampler constructed with
  at least one dataset, non-negative lengths and a positive batch size, whose trainer can
  be notified for every dataset, at an epoch for which \<open>seed + epoch\<close> is a seed
  torch accepts: let \<open>j\<close> be the number of yielded batches modulo the
  number of datasets.  Then dataset \<open>j\<close> is the first dataset with the smallest batch
  count, and the pass yields that count times the number of datasets, plus \<open>j\<close>:
  exactly \<open>j\<close> batches more than \<open>__len__\<close> returns.
\<close>

theorem round_robin_pass_length:
  fixes R :: "'g rng" and ls :: "int list" and bsize sd e :: int and dl sh :: bool
    and tr :: "trainer option" and s0 :: sampler
  assumes init: "RoundRobinBatchSampler_init ls bsize dl sd sh tr = Inr s0"
    and pos: "0 < bsize" and nonneg: "\<forall>l\<in>set ls. 0 \<le> l" and ne: "ls \<noteq> []"
    and rng: "rng_ok R" and ok: "notifier_ok (length ls) tr"
    and seeded: "seed_in_range (sd + e)"
  defines "t \<equiv> length (fst (RoundRobinBatchSampler_iter R (set_epoch s0 e)))"
  defines "j \<equiv> t mod length ls"
  shows "(\<forall>i<length ls. batch_count bsize dl (ls ! j) \<le> batch_count bsize dl (ls ! i))
       \<and> (\<forall>i<j. batch_count bsize dl (ls ! j) < batch_count bsize dl (ls ! i))
       \<and> int t = batch_count bsize dl (ls ! j) * int (length ls) + int j
       \<and> RoundRobinBatchSampler_len (set_epoch s0 e)
           = Inr (batch_count bsize dl (ls ! j) * int (length ls))"
proof -
  have init': "RoundRobinBatchSampler_init ls bsize dl sd sh tr = Inr s0
             \<or> ProportionalBatchSampler_init ls bsize dl sd sh tr = Inr s0"
    using init by simp
  note f = sampler_init_ranges[OF init']
  let ?s = "set_epoch s0 e"
  let ?n = "length ls"
  have fs: "ranges ?s = ranges s0" "batch_size ?s = bsize" "drop_last ?s = dl"
    "shuffle ?s = sh" "trainer ?s = tr" "lengths ?s = ls" "seed ?s = sd" "epoch ?s = e"
    using f by (simp_all add: set_epoch_def)
  have sr: "seed_in_range (seed ?s + epoch ?s)" using seeded by (simp only: fs)
  have n: "length (ranges s0) = ?n" using f(1) by simp
  have n0: "0 < ?n" using ne by simp
  define bss where "bss = fresh_batch_samplers (ranges s0)"
  have nb: "length bss = ?n" by (simp add: bss_def fresh_batch_samplers_def n)
  define p where "p = RoundRobinBatchSampler_iter R ?s"
  have it: "p = rr_loop R sh bsize dl 0 bss (manual_seed R (seed ?s + epoch ?s)) tr"
    using pos
    by (simp add: p_def RoundRobinBatchSampler_iter_seeded[OF sr] fs(1-6)
        new_batch_samplers_pos bss_def fresh_batch_samplers_def)
  have t: "t = length (fst p)" by (simp add: t_def p_def)
  have "0 < length bss" using n0 nb by simp
  from rr_loop_inv[OF pos rng this, of dl sh "manual_seed R (seed ?s + epoch ?s)" tr]
  have inv: "rr_inv bsize dl 0 bss p" by (simp add: it)
  have fin: "snd p = Finished"
    unfolding it using ok by (intro rr_loop_finished) (simp add: nb)
  define c where "c = (\<lambda>i. batches_left bsize dl (bss ! i))"
  have A: "\<forall>k<t. k div ?n < c (k mod ?n)"
    using inv by (simp add: rr_inv_def nb t c_def)
  have B: "c (t mod ?n) = t div ?n"
    using inv fin by (simp add: rr_inv_def nb t c_def)
  note fm = first_minimum[OF n0 A B, folded j_def]
  have j: "j < ?n" using n0 by (simp add: j_def)
  have c: "int (c i) = batch_count bsize dl (ls ! i)" if i: "i < ?n" for i
  proof -
    have "bss ! i = Fresh (fst (ranges s0 ! i)) (snd (ranges s0 ! i))"
      using i n by (simp add: bss_def fresh_batch_samplers_def split: prod.splits)
    moreover have "0 \<le> batch_count bsize dl (ls ! i)"
      using i nonneg batch_count_nonneg[OF pos, of dl "nat (ls ! i)"] by simp
    ultimately show ?thesis
      using init_range_length[OF init' nonneg i]
      by (simp add: c_def batches_left_def)
  qed
  have c1: "\<forall>i<?n. batch_count bsize dl (ls ! j) \<le> batch_count bsize dl (ls ! i)"
  proof (intro allI impI)
    fix i assume i: "i < ?n"
    with fm have "c j \<le> c i" by simp
    then have "int (c j) \<le> int (c i)" by simp
    then show "batch_count bsize dl (ls ! j) \<le> batch_count bsize dl (ls ! i)"
      by (simp only: c[OF i] c[OF j])
  qed
  have c2: "\<forall>i<j. batch_count bsize dl (ls ! j) < batch_count bsize dl (ls ! i)"
  proof (intro allI impI)
    fix i assume i: "i < j"
    then have i': "i < ?n" using j by simp
    from i fm have "c j < c i" by simp
    then have "int (c j) < int (c i)" by simp
    then show "batch_count bsize dl (ls ! j) < batch_count bsize dl (ls ! i)"
      by (simp only: c[OF i'] c[OF j])
  qed
  have "t = c j * ?n + j" using fm by simp
  then have "int t = int (c j) * int ?n + int j" by (metis of_nat_add of_nat_mult)
  then have c3: "int t = batch_count bsize dl (ls ! j) * int ?n + int j"
    by (simp only: c[OF j])
  have "Min (set (map (batch_count bsize dl) ls)) = batch_count bsize dl (ls ! j)"
  proof (rule Min_eqI)
    show "finite (set (map (batch_count bsize dl) ls))" by simp
    show "batch_count bsize dl (ls ! j) \<in> set (map (batch_count bsize dl) ls)"
      using j by simp
    fix y assume "y \<in> set (map (batch_count bsize dl) ls)"
    then obtain i where "i < ?n" "y = batch_count bsize dl (ls ! i)"
      by (auto simp: in_set_conv_nth)
    with c1 show "batch_count bsize dl (ls ! j) \<le> y" by simp
  qed
  moreover have "batch_counts ?s = Inr (map (batch_count bsize dl) ls)"
    using batch_counts_eq[of ?s] pos by (simp add: fs(1-6))
  ultimately have c4: "RoundRobinBatchSampler_len ?s
      = Inr (batch_count bsize dl (ls ! j) * int ?n)"
    using ne by (simp add: RoundRobinBatchSampler_len_def py_min_Min fs(1-6))
  from c1 c2 c3 c4 show ?thesis by blast
qed

end
